theory Spec2Isabelle
  imports Complex_Main "HOL-Library.Multiset"
begin

section \<open>Sparse mixture-of-experts routing (moe\_kan.py)\<close>

text \<open>
  The embedding follows \<^verbatim>\<open>src/divan/module/kan_convs/moe_kan.py\<close>.

  Conventions of the model.
  \<^item> The entries of a tensor are values of a type \<open>'a\<close> of machine numbers, and the
    arithmetic on them is a parameter: a record \<open>'a float_ops\<close> of the primitive
    operations (addition, multiplication, \<open>exp\<close>, \<open>log\<close>, the comparisons with zero, the
    constants). Nothing is assumed of these operations beyond what a theorem states, so
    a theorem holds for the 32-bit floats of the program, where \<open>exp\<close> underflows to zero
    and overflows to infinity, as well as for the real numbers. Two instances are defined:
    \<open>real_ops\<close>, the exact arithmetic of the reals, and \<open>underflow_ops\<close>, in which \<open>exp\<close>
    returns zero below the range of the 32-bit floats.
  \<^item> A tensor of shape \<open>[B, E]\<close> is a list of \<open>B\<close> rows, each a list of \<open>E\<close> entries
    (predicate \<open>is_matrix\<close>).
  \<^item> The operations of \<open>combine\<close> act on every feature component of a unit's output in
    the same way (the gate is broadcast over the feature dimensions; \<open>index_add\<close>, the
    replacement of zeros, \<open>exp\<close> and \<open>log\<close> are elementwise), so the output of an expert for
    one unit is one number: one feature component. \<open>index_add\<close> adds the entries in the
    order of their positions.
  \<^item> \<open>torch.nonzero\<close> lists the index pairs of the nonzero entries in row-major order.
    \<open>Tensor.sort(0)\<close> sorts every column on its own and returns the sorted values and the
    sorting permutation of each column. The sort is not stable by default, so the
    permutation it returns for the column of expert indices is a parameter \<open>perm\<close> of the
    model, and \<open>sorts col perm\<close> says that \<open>perm\<close> is a permutation that sorts \<open>col\<close>.
    \<open>argsort\<close> is the permutation a stable sort returns.
  \<^item> Library calls that raise are results \<open>Inl\<close> of an error.
\<close>

datatype error = RuntimeError | IndexError | AssertionError

subsection \<open>Machine arithmetic\<close>

record 'a float_ops =
  f_zero :: 'a
  f_one :: 'a
  f_eps :: 'a
  f_add :: "'a \<Rightarrow> 'a \<Rightarrow> 'a"
  f_sub :: "'a \<Rightarrow> 'a \<Rightarrow> 'a"
  f_mul :: "'a \<Rightarrow> 'a \<Rightarrow> 'a"
  f_div :: "'a \<Rightarrow> 'a \<Rightarrow> 'a"
  f_exp :: "'a \<Rightarrow> 'a"
  f_log :: "'a \<Rightarrow> 'a"
  f_nonzero :: "'a \<Rightarrow> bool"
  f_gt :: "'a \<Rightarrow> 'a \<Rightarrow> bool"
  f_of_nat :: "nat \<Rightarrow> 'a"
  f_of_real :: "real \<Rightarrow> 'a"
  f_softplus :: "'a \<Rightarrow> 'a"

text \<open>\<open>np.finfo(float).eps\<close>.\<close>

definition float_eps :: real where
  "float_eps = 1 / 2 ^ 52"

text \<open>The exact arithmetic of the reals. \<open>f_of_real\<close> converts a literal of the program,
  \<open>f_softplus\<close> is \<open>nn.Softplus()\<close> with its defaults \<open>beta = 1\<close>, \<open>threshold = 20\<close>.\<close>

definition real_ops :: "real float_ops" where
  "real_ops = \<lparr> f_zero = 0, f_one = 1, f_eps = float_eps,
       f_add = (\<lambda>x y. x + y), f_sub = (\<lambda>x y. x - y),
       f_mul = (\<lambda>x y. x * y), f_div = (\<lambda>x y. x / y),
       f_exp = exp, f_log = ln, f_nonzero = (\<lambda>x. x \<noteq> 0), f_gt = (\<lambda>x y. y < x),
       f_of_nat = real, f_of_real = (\<lambda>x. x),
       f_softplus = (\<lambda>v. if 20 < v then v else ln (1 + exp v)) \<rparr>"

text \<open>The least positive 32-bit float is \<open>2^-149\<close>: a positive result below \<open>2^-150\<close>
  is rounded to zero. \<open>underflow_ops\<close> is the arithmetic of the reals with this underflow
  of \<open>exp\<close>; no other rounding is modelled by it.\<close>

definition f32_underflow :: real where
  "f32_underflow = 1 / 2 ^ 150"

definition underflow_ops :: "real float_ops" where
  "underflow_ops = real_ops \<lparr> f_exp := (\<lambda>x. if exp x < f32_underflow then 0 else exp x) \<rparr>"

definition is_matrix :: "nat \<Rightarrow> nat \<Rightarrow> 'a list list \<Rightarrow> bool" where
  "is_matrix B E g \<longleftrightarrow> length g = B \<and> list_all (\<lambda>row. length row = E) g"

text \<open>The entries of a gate matrix are zero or positive: an entry is nonzero exactly when
  it is greater than zero.\<close>

definition gates_zero_or_pos :: "'a float_ops \<Rightarrow> 'a list list \<Rightarrow> bool" where
  "gates_zero_or_pos ops g \<longleftrightarrow>
     list_all (list_all (\<lambda>v. f_nonzero ops v = f_gt ops v (f_zero ops))) g"

subsection \<open>Library operations\<close>

definition nonzero :: "'a float_ops \<Rightarrow> 'a list list \<Rightarrow> (nat \<times> nat) list" where
  "nonzero ops g =
     concat (map (\<lambda>b. map (\<lambda>e. (b, e))
                          (filter (\<lambda>e. f_nonzero ops (g ! b ! e)) [0..<length (g ! b)]))
                 [0..<length g])"

definition sorts :: "nat list \<Rightarrow> nat list \<Rightarrow> bool" where
  "sorts col perm \<longleftrightarrow> sort perm = [0..<length col] \<and> sorted (map (\<lambda>i. col ! i) perm)"

definition argsort :: "nat list \<Rightarrow> nat list" where
  "argsort xs = map snd (sort_key fst (zip xs [0..<length xs]))"

fun split_sizes :: "'a list \<Rightarrow> nat list \<Rightarrow> 'a list list" where
  "split_sizes xs [] = []"
| "split_sizes xs (n # ns) = take n xs # split_sizes (drop n xs) ns"

definition torch_split :: "'a list \<Rightarrow> nat list \<Rightarrow> error + 'a list list" where
  "torch_split xs sizes =
     (if sum_list sizes = length xs then Inr (split_sizes xs sizes) else Inl RuntimeError)"

definition index_select :: "'a list \<Rightarrow> nat list \<Rightarrow> error + 'a list" where
  "index_select xs idx =
     (if list_all (\<lambda>i. i < length xs) idx then Inr (map (\<lambda>i. xs ! i) idx) else Inl IndexError)"

definition mul_broadcast :: "'a float_ops \<Rightarrow> 'a list \<Rightarrow> 'a list \<Rightarrow> error + 'a list" where
  "mul_broadcast ops xs gs =
     (if length xs = length gs then Inr (map2 (\<lambda>x g. f_mul ops x g) xs gs)
      else if length xs = 1 then Inr (map (\<lambda>g. f_mul ops (hd xs) g) gs)
      else if length gs = 1 then Inr (map (\<lambda>x. f_mul ops x (hd gs)) xs)
      else Inl RuntimeError)"

definition index_add :: "'a float_ops \<Rightarrow> 'a list \<Rightarrow> nat list \<Rightarrow> 'a list \<Rightarrow> error + 'a list" where
  "index_add ops acc idx src =
     (if length idx \<noteq> length src then Inl RuntimeError
      else if \<not> list_all (\<lambda>i. i < length acc) idx then Inl IndexError
      else Inr (foldl (\<lambda>a (i, v). a[i := f_add ops (a ! i) v]) acc (zip idx src)))"

subsection \<open>SparseDispatcher\<close>

record 'a dispatcher =
  gates_of :: "'a list list"
  num_experts_of :: nat
  expert_index :: "nat list"
  batch_index :: "nat list"
  part_sizes :: "nat list"
  nonzero_gates :: "'a list"

text \<open>\<open>__init__\<close>. \<open>perm\<close> is the second column of \<open>index_sorted_experts\<close>.\<close>

definition SparseDispatcher ::
  "'a float_ops \<Rightarrow> nat list \<Rightarrow> nat \<Rightarrow> 'a list list \<Rightarrow> 'a dispatcher" where
  "SparseDispatcher ops perm num_experts gates =
     (let nz = nonzero ops gates;
          sorted_batch = sort (map fst nz);
          sorted_expert = sort (map snd nz);
          bi = map (\<lambda>i. sorted_batch ! i) perm;
          ps = map (\<lambda>e. length (filter (\<lambda>b. f_gt ops (gates ! b ! e) (f_zero ops))
                                          [0..<length gates]))
                   [0..<num_experts];
          gates_exp = map (\<lambda>b. gates ! b) bi
      in \<lparr> gates_of = gates, num_experts_of = num_experts, expert_index = sorted_expert,
           batch_index = bi, part_sizes = ps,
           nonzero_gates = map2 (\<lambda>row e. row ! e) gates_exp sorted_expert \<rparr>)"

definition dispatch :: "'a dispatcher \<Rightarrow> 'p list \<Rightarrow> error + 'p list list" where
  "dispatch d inp =
     (case index_select inp (batch_index d) of
        Inl err \<Rightarrow> Inl err
      | Inr inp_exp \<Rightarrow> torch_split inp_exp (part_sizes d))"

definition combine ::
  "'a float_ops \<Rightarrow> 'a dispatcher \<Rightarrow> 'a list list \<Rightarrow> bool \<Rightarrow> error + 'a list" where
  "combine ops d expert_out multiply_by_gates =
     (if expert_out = [] then Inl RuntimeError
      else
        let stitched = map (f_exp ops) (concat expert_out) in
        case (if multiply_by_gates then mul_broadcast ops stitched (nonzero_gates d)
              else Inr stitched) of
          Inl err \<Rightarrow> Inl err
        | Inr stitched' \<Rightarrow>
            (case index_add ops (replicate (length (gates_of d)) (f_zero ops))
                    (batch_index d) stitched' of
               Inl err \<Rightarrow> Inl err
             | Inr combined \<Rightarrow>
                 Inr (map (f_log ops)
                        (map (\<lambda>v. if \<not> f_nonzero ops v then f_eps ops else v) combined))))"

definition expert_to_gates :: "'a dispatcher \<Rightarrow> error + 'a list list" where
  "expert_to_gates d = torch_split (nonzero_gates d) (part_sizes d)"

subsection \<open>Sub-batch bookkeeping used to state the properties\<close>

text \<open>
  \<open>expert_units d e\<close> are the original indices of the units in the sub-batch of expert
  \<open>e\<close>, in the order of the sub-batch; \<open>index_of xs b\<close> is the position of \<open>b\<close> in \<open>xs\<close> and
  \<open>slot d e b\<close> the position of unit \<open>b\<close> in the sub-batch of expert \<open>e\<close>;
  \<open>routed_units ops g e\<close> are the units with a nonzero gate for expert \<open>e\<close>, in
  ascending order; \<open>sorted_pairs ops perm g\<close> are the index pairs of the nonzero gates in
  the order of the permutation; \<open>routed_experts ops g E b\<close> are the experts with a nonzero
  gate for unit \<open>b\<close>.
\<close>

definition expert_units :: "'a dispatcher \<Rightarrow> nat \<Rightarrow> nat list" where
  "expert_units d e =
     map fst (filter (\<lambda>p. snd p = e) (zip (batch_index d) (expert_index d)))"

definition index_of :: "nat list \<Rightarrow> nat \<Rightarrow> nat" where
  "index_of xs b = length (takeWhile (\<lambda>x. x \<noteq> b) xs)"

definition slot :: "'a dispatcher \<Rightarrow> nat \<Rightarrow> nat \<Rightarrow> nat" where
  "slot d e b = index_of (expert_units d e) b"

definition routed_units :: "'a float_ops \<Rightarrow> 'a list list \<Rightarrow> nat \<Rightarrow> nat list" where
  "routed_units ops g e = filter (\<lambda>b. f_nonzero ops (g ! b ! e)) [0..<length g]"

definition sorted_pairs :: "'a float_ops \<Rightarrow> nat list \<Rightarrow> 'a list list \<Rightarrow> (nat \<times> nat) list" where
  "sorted_pairs ops perm g = map (\<lambda>i. nonzero ops g ! i) perm"

definition routed_experts :: "'a float_ops \<Rightarrow> 'a list list \<Rightarrow> nat \<Rightarrow> nat \<Rightarrow> nat list" where
  "routed_experts ops g E b = filter (\<lambda>e. f_nonzero ops (g ! b ! e)) [0..<E]"

text \<open>The accumulator slot of a unit: the terms are added to zero one after the other; and
  the replacement of an accumulator that is zero by the machine epsilon.\<close>

definition accumulate :: "'a float_ops \<Rightarrow> 'a list \<Rightarrow> 'a" where
  "accumulate ops ts = foldl (f_add ops) (f_zero ops) ts"

definition zero_fill :: "'a float_ops \<Rightarrow> 'a \<Rightarrow> 'a" where
  "zero_fill ops v = (if f_nonzero ops v then v else f_eps ops)"

text \<open>The weighted sum of the experts' outputs for unit \<open>b\<close>, in the words of the
  specification of the combiner.\<close>

definition weighted_sum_spec ::
  "'a float_ops \<Rightarrow> 'a dispatcher \<Rightarrow> nat \<Rightarrow> 'a list list \<Rightarrow> nat \<Rightarrow> 'a" where
  "weighted_sum_spec ops d E outs b =
     accumulate ops (map (\<lambda>e. f_mul ops (outs ! e ! slot d e b) (gates_of d ! b ! e))
                         (routed_experts ops (gates_of d) E b))"

text \<open>The round trip in the words of the specification: the sum, over the routed
  experts, of weight times the original payload.\<close>

definition weighted_payload_spec ::
  "'a float_ops \<Rightarrow> 'a list list \<Rightarrow> nat \<Rightarrow> 'a list \<Rightarrow> nat \<Rightarrow> 'a" where
  "weighted_payload_spec ops g E inp b =
     accumulate ops (map (\<lambda>e. f_mul ops (g ! b ! e) (inp ! b)) (routed_experts ops g E b))"

subsection \<open>The layer: construction\<close>

record 'a moe_layer =
  layer_noisy_gating :: bool
  layer_num_experts :: nat
  layer_k :: int
  w_gate :: "'a list list"
  w_noise :: "'a list list"

text \<open>
  \<open>__init__\<close>: the experts are built (an empty list when \<open>num_experts \<le> 0\<close>), then
  \<open>torch.zeros(input_size, num_experts)\<close> raises on a negative size, and the last
  statement is \<open>assert (self.k <= self.num_experts)\<close>.
\<close>

definition MoEKANConvBase_init ::
  "'a float_ops \<Rightarrow> int \<Rightarrow> int \<Rightarrow> bool \<Rightarrow> int \<Rightarrow> error + 'a moe_layer" where
  "MoEKANConvBase_init ops input_size num_experts noisy_gating k =
     (if input_size < 0 \<or> num_experts < 0 then Inl RuntimeError
      else if \<not> k \<le> num_experts then Inl AssertionError
      else Inr \<lparr> layer_noisy_gating = noisy_gating, layer_num_experts = nat num_experts,
                 layer_k = k,
                 w_gate = replicate (nat input_size) (replicate (nat num_experts) (f_zero ops)),
                 w_noise = replicate (nat input_size) (replicate (nat num_experts) (f_zero ops)) \<rparr>)"

subsection \<open>The fairness penalty\<close>

definition mean :: "'a float_ops \<Rightarrow> 'a list \<Rightarrow> 'a" where
  "mean ops xs = f_div ops (accumulate ops xs) (f_of_nat ops (length xs))"

text \<open>\<open>Tensor.var()\<close> is the unbiased sample variance (Bessel's correction).\<close>

definition var :: "'a float_ops \<Rightarrow> 'a list \<Rightarrow> 'a" where
  "var ops xs =
     f_div ops (accumulate ops (map (\<lambda>x. f_mul ops (f_sub ops x (mean ops xs))
                                                  (f_sub ops x (mean ops xs))) xs))
               (f_of_nat ops (length xs - 1))"

definition cv_squared :: "'a float_ops \<Rightarrow> 'a list \<Rightarrow> 'a" where
  "cv_squared ops x =
     (let eps = f_of_real ops (1 / 10 ^ 10) in
      if length x = 1 then f_zero ops
      else f_div ops (var ops x) (f_add ops (f_mul ops (mean ops x) (mean ops x)) eps))"

subsection \<open>Noisy top-k gating\<close>

definition matmul :: "'a float_ops \<Rightarrow> 'a list list \<Rightarrow> 'a list list \<Rightarrow> nat \<Rightarrow> error + 'a list list" where
  "matmul ops x w n =
     (if list_all (\<lambda>row. length row = length w) x
      then Inr (map (\<lambda>row. map (\<lambda>j. accumulate ops
                                     (map (\<lambda>i. f_mul ops (row ! i) (w ! i ! j)) [0..<length w]))
                                 [0..<n]) x)
      else Inl RuntimeError)"

text \<open>\<open>nn.Softmax(1)\<close> on one row: the exponentials of the differences to the maximum
  of the row, divided by their sum.\<close>

definition max_of :: "'a float_ops \<Rightarrow> 'a list \<Rightarrow> 'a" where
  "max_of ops row = foldl (\<lambda>m v. if f_gt ops v m then v else m) (hd row) (tl row)"

definition softmax :: "'a float_ops \<Rightarrow> 'a list \<Rightarrow> 'a list" where
  "softmax ops row =
     (case row of
        [] \<Rightarrow> []
      | _ # _ \<Rightarrow>
          (let es = map (\<lambda>v. f_exp ops (f_sub ops v (max_of ops row))) row;
               s = accumulate ops es
           in map (\<lambda>v. f_div ops v s) es))"

text \<open>
  \<open>Tensor.topk(m, dim=1)\<close> returns the \<open>m\<close> largest values of every row in descending
  order, and their indices. Which of several equal values it takes, and in which
  order, is not specified, so the tensor of indices it returns is a parameter \<open>tk\<close> of
  the model, and \<open>is_topk ops m row idx\<close> says that \<open>idx\<close> are indices of \<open>m\<close> largest
  values of \<open>row\<close>, in descending order of the values.
\<close>

definition is_topk :: "'a float_ops \<Rightarrow> nat \<Rightarrow> 'a list \<Rightarrow> nat list \<Rightarrow> bool" where
  "is_topk ops m row idx \<longleftrightarrow>
     length idx = m \<and> distinct idx \<and> list_all (\<lambda>i. i < length row) idx
     \<and> list_all (\<lambda>j. \<not> f_gt ops (row ! (idx ! Suc j)) (row ! (idx ! j))) [0..<m - 1]
     \<and> list_all (\<lambda>i. i \<in> set idx
                    \<or> list_all (\<lambda>j. \<not> f_gt ops (row ! i) (row ! (idx ! j))) [0..<m])
                [0..<length row]"

definition topk ::
  "int \<Rightarrow> nat \<Rightarrow> 'a list list \<Rightarrow> nat list list \<Rightarrow> error + ('a list \<times> nat list) list" where
  "topk m n t tk =
     (if m < 0 \<or> int n < m then Inl RuntimeError
      else Inr (map2 (\<lambda>row idx. (map (\<lambda>i. row ! i) idx, idx)) t tk))"

text \<open>The Python slice \<open>xs[:k]\<close>.\<close>

definition py_slice_to :: "'b list \<Rightarrow> int \<Rightarrow> 'b list" where
  "py_slice_to xs k = (if 0 \<le> k then take (nat k) xs else take (length xs - nat (- k)) xs)"

definition scatter_row :: "'a list \<Rightarrow> nat list \<Rightarrow> 'a list \<Rightarrow> 'a list" where
  "scatter_row zs idx vals = foldl (\<lambda>r (i, v). r[i := v]) zs (zip idx vals)"

definition sum0 :: "'a float_ops \<Rightarrow> 'a list list \<Rightarrow> nat \<Rightarrow> 'a list" where
  "sum0 ops t n = map (\<lambda>e. accumulate ops (map (\<lambda>row. row ! e) t)) [0..<n]"

text \<open>\<open>_gates_to_load\<close>: the counts are integers, converted by \<open>x.float()\<close> in
  \<open>cv_squared\<close>; the conversion is made here.\<close>

definition gates_to_load :: "'a float_ops \<Rightarrow> 'a list list \<Rightarrow> nat \<Rightarrow> 'a list" where
  "gates_to_load ops gates n =
     map (\<lambda>e. f_of_nat ops (length (filter (\<lambda>row. f_gt ops (row ! e) (f_zero ops)) gates)))
         [0..<n]"

definition size1 :: "'b list list \<Rightarrow> nat" where
  "size1 t = (case t of [] \<Rightarrow> 0 | row # _ \<Rightarrow> length row)"

definition gather_flat :: "'a list \<Rightarrow> int list \<Rightarrow> error + 'a list" where
  "gather_flat flat pos =
     (if list_all (\<lambda>p. 0 \<le> p \<and> p < int (length flat)) pos
      then Inr (map (\<lambda>p. flat ! nat p) pos) else Inl RuntimeError)"

text \<open>\<open>_prob_in_top_k\<close>; \<open>Phi\<close> is the cumulative distribution function of the standard
  normal distribution (\<open>Normal(0, 1).cdf\<close>), a parameter of the model.\<close>

definition prob_in_top_k ::
  "'a float_ops \<Rightarrow> ('a \<Rightarrow> 'a) \<Rightarrow> int \<Rightarrow> 'a list list \<Rightarrow> 'a list list \<Rightarrow> 'a list list \<Rightarrow>
   'a list list \<Rightarrow> error + 'a list list" where
  "prob_in_top_k ops Phi k clean_values noisy_values noise_stddev noisy_top_values =
     (let batch = length clean_values;
          m = size1 noisy_top_values;
          top_values_flat = concat noisy_top_values;
          threshold_positions_if_in = map (\<lambda>b. int b * int m + k) [0..<batch]
      in case gather_flat top_values_flat threshold_positions_if_in of
           Inl err \<Rightarrow> Inl err
         | Inr threshold_if_in \<Rightarrow>
             (case gather_flat top_values_flat (map (\<lambda>p. p - 1) threshold_positions_if_in) of
                Inl err \<Rightarrow> Inl err
              | Inr threshold_if_out \<Rightarrow>
                  Inr (map (\<lambda>b. map (\<lambda>e.
                         if f_gt ops (noisy_values ! b ! e) (threshold_if_in ! b)
                         then Phi (f_div ops (f_sub ops (clean_values ! b ! e) (threshold_if_in ! b))
                                             (noise_stddev ! b ! e))
                         else Phi (f_div ops (f_sub ops (clean_values ! b ! e) (threshold_if_out ! b))
                                             (noise_stddev ! b ! e)))
                       [0..<length (clean_values ! b)]) [0..<batch])))"

definition noise_stddev_of :: "'a float_ops \<Rightarrow> 'a list list \<Rightarrow> 'a \<Rightarrow> bool \<Rightarrow> 'a list list" where
  "noise_stddev_of ops raw_noise_stddev noise_epsilon train =
     map (map (\<lambda>r. f_mul ops (f_add ops (f_softplus ops r) noise_epsilon)
                               (if train then f_one ops else f_zero ops))) raw_noise_stddev"

definition noisy_logits_of ::
  "'a float_ops \<Rightarrow> 'a list list \<Rightarrow> 'a list list \<Rightarrow> 'a list list \<Rightarrow> 'a list list" where
  "noisy_logits_of ops clean_logits randn noise_stddev =
     map2 (\<lambda>crow nrow. map2 (\<lambda>c n. f_add ops c n) crow nrow) clean_logits
       (map2 (\<lambda>rrow srow. map2 (\<lambda>r s. f_mul ops r s) rrow srow) randn noise_stddev)"

text \<open>The gates of one row: the softmax of the first \<open>k\<close> of the top values, scattered
  into a row of zeros at their indices.\<close>

definition gates_row :: "'a float_ops \<Rightarrow> int \<Rightarrow> nat \<Rightarrow> 'a list \<times> nat list \<Rightarrow> 'a list" where
  "gates_row ops k n tops =
     (let top_k_logits = py_slice_to (fst tops) k;
          top_k_indices = py_slice_to (snd tops) k;
          top_k_gates = softmax ops top_k_logits
      in scatter_row (replicate n (f_zero ops)) top_k_indices top_k_gates)"

text \<open>The first part of \<open>noisy_top_k_gating\<close>: the clean logits, the logits that are
  ranked and the standard deviation of the noise. \<open>randn\<close> is the sample that
  \<open>torch.randn_like(clean_logits)\<close> draws, of the shape of \<open>clean_logits\<close>. Without noisy
  gating \<open>noise_stddev\<close> is not bound in the source and not read later; it is \<open>[]\<close> here.\<close>

definition gating_logits ::
  "'a float_ops \<Rightarrow> 'a moe_layer \<Rightarrow> 'a list list \<Rightarrow> bool \<Rightarrow> 'a \<Rightarrow> 'a list list \<Rightarrow>
   error + ('a list list \<times> 'a list list \<times> 'a list list)" where
  "gating_logits ops l x train noise_epsilon randn =
     (let n = layer_num_experts l in
      case matmul ops x (w_gate l) n of
        Inl err \<Rightarrow> Inl err
      | Inr clean_logits \<Rightarrow>
          (if layer_noisy_gating l
           then (case matmul ops x (w_noise l) n of
                   Inl err \<Rightarrow> Inl err
                 | Inr raw_noise_stddev \<Rightarrow>
                     (let noise_stddev = noise_stddev_of ops raw_noise_stddev noise_epsilon train
                      in Inr (clean_logits,
                              noisy_logits_of ops clean_logits randn noise_stddev, noise_stddev)))
           else Inr (clean_logits, clean_logits, [])))"

text \<open>\<open>noisy_top_k_gating\<close>; \<open>tk\<close> is the tensor of indices that \<open>topk\<close> returns.\<close>

definition noisy_top_k_gating ::
  "'a float_ops \<Rightarrow> ('a \<Rightarrow> 'a) \<Rightarrow> 'a moe_layer \<Rightarrow> 'a list list \<Rightarrow> bool \<Rightarrow> 'a \<Rightarrow> 'a list list \<Rightarrow>
   nat list list \<Rightarrow> error + ('a list list \<times> 'a list)" where
  "noisy_top_k_gating ops Phi l x train noise_epsilon randn tk =
     (let n = layer_num_experts l in
      case gating_logits ops l x train noise_epsilon randn of
        Inl err \<Rightarrow> Inl err
      | Inr (clean_logits, logits, noise_stddev) \<Rightarrow>
          (case topk (min (layer_k l + 1) (int n)) n logits tk of
             Inl err \<Rightarrow> Inl err
           | Inr tops \<Rightarrow>
               (let gates = map (gates_row ops (layer_k l) n) tops in
                if layer_noisy_gating l \<and> layer_k l < int n \<and> train
                then (case prob_in_top_k ops Phi (layer_k l) clean_logits logits noise_stddev
                             (map fst tops) of
                        Inl err \<Rightarrow> Inl err
                      | Inr prob \<Rightarrow> Inr (gates, sum0 ops prob n))
                else Inr (gates, gates_to_load ops gates n))))"

subsection \<open>forward\<close>

text \<open>
  A unit of the input batch is a list of channels, each the list of its pixel values;
  \<open>flatten(avgpool(x), 1)\<close> is the list of the channel means. An expert is a function
  from a sub-batch of units to the sub-batch of their outputs. \<open>forward_trace\<close> is
  \<open>forward\<close> together with the list of the calls of experts it makes, each with the
  index of the expert and its argument.
\<close>

definition avgpool_flatten :: "'a float_ops \<Rightarrow> 'a list list list \<Rightarrow> 'a list list" where
  "avgpool_flatten ops x = map (map (mean ops)) x"

record 'a forward_result =
  fr_y :: "'a list"
  fr_loss :: 'a
  fr_calls :: "(nat \<times> 'a list list list) list"

definition forward_trace ::
  "'a float_ops \<Rightarrow> ('a \<Rightarrow> 'a) \<Rightarrow> 'a moe_layer \<Rightarrow> ('a list list list \<Rightarrow> 'a list) list \<Rightarrow>
   'a list list list \<Rightarrow> bool \<Rightarrow> 'a \<Rightarrow> 'a list list \<Rightarrow> nat list list \<Rightarrow> nat list \<Rightarrow>
   error + 'a forward_result" where
  "forward_trace ops Phi l experts x train loss_coef randn tk perm =
     (let n = layer_num_experts l;
          gate_x = avgpool_flatten ops x
      in case noisy_top_k_gating ops Phi l gate_x train (f_of_real ops (1 / 100)) randn tk of
           Inl err \<Rightarrow> Inl err
         | Inr (gates, load) \<Rightarrow>
             (let importance = sum0 ops gates n;
                  loss = f_mul ops (f_add ops (cv_squared ops importance) (cv_squared ops load))
                                   loss_coef;
                  d = SparseDispatcher ops perm n gates
              in case dispatch d x of
                   Inl err \<Rightarrow> Inl err
                 | Inr expert_inputs \<Rightarrow>
                     (case expert_to_gates d of
                        Inl err \<Rightarrow> Inl err
                      | Inr _ \<Rightarrow>
                          (let calls = map (\<lambda>i. (i, expert_inputs ! i)) [0..<n];
                               expert_outputs = map (\<lambda>(i, xs). (experts ! i) xs) calls
                           in case combine ops d expert_outputs True of
                                Inl err \<Rightarrow> Inl err
                              | Inr y \<Rightarrow> Inr \<lparr> fr_y = y, fr_loss = loss, fr_calls = calls \<rparr>))))"

definition forward ::
  "'a float_ops \<Rightarrow> ('a \<Rightarrow> 'a) \<Rightarrow> 'a moe_layer \<Rightarrow> ('a list list list \<Rightarrow> 'a list) list \<Rightarrow>
   'a list list list \<Rightarrow> bool \<Rightarrow> 'a \<Rightarrow> 'a list list \<Rightarrow> nat list list \<Rightarrow> nat list \<Rightarrow>
   error + ('a list \<times> 'a)" where
  "forward ops Phi l experts x train loss_coef randn tk perm =
     (case forward_trace ops Phi l experts x train loss_coef randn tk perm of
        Inl err \<Rightarrow> Inl err
      | Inr r \<Rightarrow> Inr (fr_y r, fr_loss r))"

subsection \<open>Well-formed inputs of the gating\<close>

text \<open>The shapes that the matrix products need: the summary vectors have the length of
  the weight matrices, and the noise sample has the shape of the logits. And the indices
  \<open>tk\<close> are a result of \<open>topk\<close> for every row of the logits.\<close>

definition gating_shapes :: "'a moe_layer \<Rightarrow> 'a list list \<Rightarrow> 'a list list \<Rightarrow> bool" where
  "gating_shapes l x randn \<longleftrightarrow>
     list_all (\<lambda>row. length row = length (w_gate l)) x
     \<and> (layer_noisy_gating l \<longrightarrow>
          length (w_noise l) = length (w_gate l)
          \<and> is_matrix (length x) (layer_num_experts l) randn)"

definition topk_ok :: "'a float_ops \<Rightarrow> 'a moe_layer \<Rightarrow> 'a list list \<Rightarrow> nat list list \<Rightarrow> bool" where
  "topk_ok ops l logits tk \<longleftrightarrow>
     list_all2 (is_topk ops (nat (min (layer_k l + 1) (int (layer_num_experts l))))) logits tk"

text \<open>The indices of the selected experts of a row, and the gates that the softmax gives
  them.\<close>

definition selected :: "'a moe_layer \<Rightarrow> nat list \<Rightarrow> nat list" where
  "selected l idx = take (nat (layer_k l)) idx"

definition selected_gates :: "'a float_ops \<Rightarrow> 'a moe_layer \<Rightarrow> 'a list \<Rightarrow> nat list \<Rightarrow> 'a list" where
  "selected_gates ops l row idx = softmax ops (take (nat (layer_k l)) (map (\<lambda>i. row ! i) idx))"

text \<open>The gates that the router scatters, row by row.\<close>

definition router_gates ::
  "'a float_ops \<Rightarrow> 'a moe_layer \<Rightarrow> 'a list list \<Rightarrow> nat list list \<Rightarrow> 'a list list" where
  "router_gates ops l logits tk =
     map2 (\<lambda>row idx. gates_row ops (layer_k l) (layer_num_experts l) (map (\<lambda>i. row ! i) idx, idx))
          logits tk"

subsection \<open>The load, in the words of the specification\<close>

text \<open>
  \<open>kth_value logits tk b j\<close> is the value at position \<open>j\<close> (from 0) of the descending list
  of the top values of row \<open>b\<close>: the \<open>(j + 1)\<close>-th largest score of the unit.
  \<open>prob_entry\<close> is the probability that expert \<open>e\<close> is in the top \<open>k\<close> for unit \<open>b\<close> were the
  noise resampled: the threshold is the \<open>(k + 1)\<close>-th largest noisy score when the noisy
  score of the expert is above it (the expert is inside the top \<open>k\<close>), and the \<open>k\<close>-th
  largest otherwise. \<open>soft_load\<close> sums these probabilities over the units, \<open>hard_load\<close>
  counts the units with a gate greater than zero.
\<close>

definition kth_value :: "'a list list \<Rightarrow> nat list list \<Rightarrow> nat \<Rightarrow> nat \<Rightarrow> 'a" where
  "kth_value logits tk b j = logits ! b ! (tk ! b ! j)"

definition prob_entry ::
  "'a float_ops \<Rightarrow> ('a \<Rightarrow> 'a) \<Rightarrow> nat \<Rightarrow> 'a list list \<Rightarrow> 'a list list \<Rightarrow> 'a list list \<Rightarrow>
   nat list list \<Rightarrow> nat \<Rightarrow> nat \<Rightarrow> 'a" where
  "prob_entry ops Phi k clean noisy std tk b e =
     (if f_gt ops (noisy ! b ! e) (kth_value noisy tk b k)
      then Phi (f_div ops (f_sub ops (clean ! b ! e) (kth_value noisy tk b k)) (std ! b ! e))
      else Phi (f_div ops (f_sub ops (clean ! b ! e) (kth_value noisy tk b (k - 1))) (std ! b ! e)))"

definition soft_load ::
  "'a float_ops \<Rightarrow> ('a \<Rightarrow> 'a) \<Rightarrow> nat \<Rightarrow> nat \<Rightarrow> 'a list list \<Rightarrow> 'a list list \<Rightarrow> 'a list list \<Rightarrow>
   nat list list \<Rightarrow> 'a list" where
  "soft_load ops Phi k n clean noisy std tk =
     map (\<lambda>e. accumulate ops (map (\<lambda>b. prob_entry ops Phi k clean noisy std tk b e)
                                    [0..<length clean])) [0..<n]"

definition hard_load :: "'a float_ops \<Rightarrow> nat \<Rightarrow> 'a list list \<Rightarrow> 'a list" where
  "hard_load ops n gates =
     map (\<lambda>e. f_of_nat ops (length (filter (\<lambda>b. f_gt ops (gates ! b ! e) (f_zero ops))
                                            [0..<length gates]))) [0..<n]"

section \<open>Sorting and grouping\<close>

lemma insort_key_map_commute:
  assumes "f (g z) = h z" "\<forall>y\<in>set zs. f (g y) = h y"
  shows "map g (insort_key h z zs) = insort_key f (g z) (map g zs)"
  using assms by (induction zs) auto

lemma sort_key_map_commute:
  assumes "\<forall>z\<in>set zs. f (g z) = h z"
  shows "map g (sort_key h zs) = sort_key f (map g zs)"
  using assms by (induction zs) (auto simp: insort_key_map_commute)

lemma map_nth_zip_upt: "map (\<lambda>(k, i). ps ! i) (zip (map f ps) [0..<length ps]) = ps"
  by (rule nth_equalityI) auto

lemma argsort_sort_key:
  "map (\<lambda>i. ps ! i) (argsort (map f ps)) = sort_key f ps"
proof -
  let ?zs = "zip (map f ps) [0..<length ps]"
  have "\<forall>z\<in>set ?zs. f ((\<lambda>(k, i). ps ! i) z) = fst z"
    by (auto simp: set_zip)
  then have "map (\<lambda>(k, i). ps ! i) (sort_key fst ?zs) = sort_key f (map (\<lambda>(k, i). ps ! i) ?zs)"
    by (rule sort_key_map_commute)
  moreover have "map (\<lambda>i. ps ! i) (argsort (map f ps)) = map (\<lambda>(k, i). ps ! i) (sort_key fst ?zs)"
    by (simp add: argsort_def case_prod_beta)
  ultimately show ?thesis by (simp add: map_nth_zip_upt)
qed

lemma sort_map_sort_key: "sort (map f xs) = map f (sort_key f xs)"
  by (induction xs) (auto simp: insort_key_map_commute[where f="\<lambda>x. x" and h=f and g=f, symmetric])

lemma sort_key_last_group:
  fixes f :: "'a \<Rightarrow> nat"
  assumes "\<forall>x\<in>set xs. f x \<le> n"
  shows "sort_key f xs = sort_key f (filter (\<lambda>x. f x < n) xs) @ filter (\<lambda>x. f x = n) xs"
proof (rule properties_for_sort_key)
  show "mset (sort_key f (filter (\<lambda>x. f x < n) xs) @ filter (\<lambda>x. f x = n) xs) = mset xs"
    using assms by (induction xs) auto
next
  fix k
  assume "k \<in> set (sort_key f (filter (\<lambda>x. f x < n) xs) @ filter (\<lambda>x. f x = n) xs)"
  then have kn: "f k \<le> n" using assms by auto
  have st: "filter (\<lambda>x. f k = f x) (sort_key f (filter (\<lambda>x. f x < n) xs))
        = filter (\<lambda>x. f k = f x) (filter (\<lambda>x. f x < n) xs)"
    using sort_key_stable[of f "f k" "filter (\<lambda>x. f x < n) xs"] by (simp add: eq_commute)
  show "filter (\<lambda>x. f k = f x) (sort_key f (filter (\<lambda>x. f x < n) xs) @ filter (\<lambda>x. f x = n) xs)
        = filter (\<lambda>x. f k = f x) xs"
  proof (cases "f k < n")
    case True
    then have "filter (\<lambda>x. f k = f x) (filter (\<lambda>x. f x = n) xs) = []"
      by (auto simp: filter_empty_conv)
    moreover have "filter (\<lambda>x. f k = f x) (filter (\<lambda>x. f x < n) xs) = filter (\<lambda>x. f k = f x) xs"
      using True by (auto intro: filter_cong)
    ultimately show ?thesis using st by simp
  next
    case False
    then have e: "f k = n" using kn by simp
    have "filter (\<lambda>x. f k = f x) (filter (\<lambda>x. f x < n) xs) = []"
      using e by (auto simp: filter_empty_conv)
    moreover have "filter (\<lambda>x. f k = f x) (filter (\<lambda>x. f x = n) xs) = filter (\<lambda>x. f k = f x) xs"
      using e by (auto intro: filter_cong)
    ultimately show ?thesis using st by simp
  qed
next
  have "map f (filter (\<lambda>x. f x = n) xs) = replicate (length (filter (\<lambda>x. f x = n) xs)) n"
    by (induction xs) auto
  then have "sorted (map f (filter (\<lambda>x. f x = n) xs))"
    by (simp add: sorted_replicate)
  then show "sorted (map f (sort_key f (filter (\<lambda>x. f x < n) xs) @ filter (\<lambda>x. f x = n) xs))"
    by (auto simp: sorted_append)
qed

lemma sort_key_groups:
  fixes f :: "'a \<Rightarrow> nat"
  shows "\<forall>x\<in>set xs. f x < n \<Longrightarrow>
    sort_key f xs = concat (map (\<lambda>k. filter (\<lambda>x. f x = k) xs) [0..<n])"
proof (induction n arbitrary: xs)
  case 0
  then show ?case by (cases xs) auto
next
  case (Suc n)
  have le: "\<forall>x\<in>set xs. f x \<le> n" using Suc.prems by auto
  have "sort_key f (filter (\<lambda>x. f x < n) xs)
      = concat (map (\<lambda>k. filter (\<lambda>x. f x = k) (filter (\<lambda>x. f x < n) xs)) [0..<n])"
    by (rule Suc.IH) simp
  also have "\<dots> = concat (map (\<lambda>k. filter (\<lambda>x. f x = k) xs) [0..<n])"
    by (rule arg_cong[where f=concat], rule map_cong) (auto intro: filter_cong)
  finally show ?case using sort_key_last_group[OF le] by simp
qed

lemma sorted_fst_concat_pairs:
  "sorted (map fst (concat (map (\<lambda>b. map (\<lambda>e. (b, e)) (h b)) [0..<n])))"
  by (induction n) (auto simp: sorted_append o_def map_replicate_const sorted_replicate)

lemma filter_eq_upt:
  "filter (\<lambda>e'. e' = e \<and> Q e') [0..<E] = (if Q e \<and> e < E then [e] else [])"
  by (induction E) auto

lemma filter_snd_row:
  "filter (\<lambda>p. snd p = e) (map (\<lambda>e'. (b, e')) (filter Q [0..<E]))
     = (if Q e \<and> e < E then [(b, e)] else [])"
proof -
  have "filter (\<lambda>p. snd p = e) (map (\<lambda>e'. (b, e')) (filter Q [0..<E]))
      = map (\<lambda>e'. (b, e')) (filter (\<lambda>e'. e' = e \<and> Q e') [0..<E])"
    by (simp add: filter_map o_def conj_commute)
  then show ?thesis by (simp add: filter_eq_upt)
qed

lemma concat_map_if_singleton:
  "concat (map (\<lambda>b. if P b then [h b] else []) bs) = map h (filter P bs)"
  by (induction bs) auto

lemma argsort_lt: "i \<in> set (argsort xs) \<Longrightarrow> i < length xs"
  by (auto simp: argsort_def set_zip)

lemma split_sizes_concat: "split_sizes (concat xss) (map length xss) = xss"
  by (induction xss) auto

lemma length_concat_sum: "length (concat xss) = sum_list (map length xss)"
  by (induction xss) auto

lemma zip_concat_groups:
  "\<forall>k\<in>set ks. length (f k) = length (h k) \<Longrightarrow>
   zip (concat (map f ks)) (concat (map h ks)) = concat (map (\<lambda>k. zip (f k) (h k)) ks)"
  by (induction ks) auto

lemma concat_nth_upt: "length xss = E \<Longrightarrow> concat xss = concat (map (\<lambda>e. xss ! e) [0..<E])"
  by (metis map_nth)

lemma nonzero_fst_sorted: "sorted (map fst (nonzero ops g))"
  unfolding nonzero_def by (rule sorted_fst_concat_pairs)

lemma nonzero_filter_snd:
  assumes "is_matrix B E g" "e < E"
  shows "filter (\<lambda>p. snd p = e) (nonzero ops g) = map (\<lambda>b. (b, e)) (routed_units ops g e)"
proof -
  have len: "\<And>b. b < B \<Longrightarrow> length (g ! b) = E"
    using assms(1) by (auto simp: is_matrix_def list_all_length)
  have B: "length g = B" using assms(1) by (simp add: is_matrix_def)
  have "filter (\<lambda>p. snd p = e) (nonzero ops g)
      = concat (map (\<lambda>b. filter (\<lambda>p. snd p = e)
           (map (\<lambda>e'. (b, e')) (filter (\<lambda>e'. f_nonzero ops (g ! b ! e')) [0..<length (g ! b)]))) [0..<B])"
    by (simp add: nonzero_def filter_concat o_def B)
  also have "\<dots> = concat (map (\<lambda>b. if f_nonzero ops (g ! b ! e) then [(b, e)] else []) [0..<B])"
    by (rule arg_cong[where f=concat], rule map_cong) (auto simp: filter_snd_row len assms(2))
  also have "\<dots> = map (\<lambda>b. (b, e)) (routed_units ops g e)"
    by (simp add: concat_map_if_singleton routed_units_def B)
  finally show ?thesis .
qed

lemma nonzero_snd_lt:
  assumes "is_matrix B E g" "p \<in> set (nonzero ops g)"
  shows "snd p < E"
  using assms by (auto simp: nonzero_def is_matrix_def list_all_length)

lemma sorts_mset: "sorts col perm \<Longrightarrow> mset perm = mset [0..<length col]"
  unfolding sorts_def by (metis mset_sort)

lemma sorts_lt: "sorts col perm \<Longrightarrow> i \<in> set perm \<Longrightarrow> i < length col"
proof -
  assume s: "sorts col perm" and i: "i \<in> set perm"
  have "set perm = set [0..<length col]" by (rule mset_eq_setD[OF sorts_mset[OF s]])
  then show ?thesis using i by simp
qed

lemma mset_map_nth_perm:
  assumes "mset perm = mset [0..<length xs]"
  shows "mset (map (\<lambda>i. xs ! i) perm) = mset xs"
proof -
  have "mset (map (\<lambda>i. xs ! i) perm) = image_mset (\<lambda>i. xs ! i) (mset perm)" by simp
  also have "\<dots> = image_mset (\<lambda>i. xs ! i) (mset [0..<length xs])" by (simp only: assms)
  also have "\<dots> = mset (map (\<lambda>i. xs ! i) [0..<length xs])" by simp
  also have "\<dots> = mset xs" by (simp only: map_nth)
  finally show ?thesis .
qed

lemma sorts_argsort: "sorts col (argsort col)"
proof -
  let ?zs = "zip col [0..<length col]"
  have z: "map snd ?zs = [0..<length col]" by (rule map_snd_zip) simp
  have "mset (argsort col) = mset (map snd ?zs)"
    unfolding argsort_def by (simp only: mset_map mset_sort)
  then have "mset (argsort col) = mset [0..<length col]" by (simp only: z)
  then have 1: "sort (argsort col) = [0..<length col]"
    by (intro properties_for_sort) simp_all
  have "map (\<lambda>i. col ! i) (argsort col) = sort_key (\<lambda>x. x) col"
    using argsort_sort_key[of col "\<lambda>x. x"] by simp
  then have 2: "sorted (map (\<lambda>i. col ! i) (argsort col))" by simp
  show ?thesis unfolding sorts_def using 1 2 by simp
qed

section \<open>The bookkeeping of the dispatcher\<close>

lemma sorted_pairs_mset:
  assumes "sorts (map snd (nonzero ops g)) perm"
  shows "mset (sorted_pairs ops perm g) = mset (nonzero ops g)"
  unfolding sorted_pairs_def using sorts_mset[OF assms] by (intro mset_map_nth_perm) simp

lemma sorted_pairs_snd:
  assumes "sorts (map snd (nonzero ops g)) perm"
  shows "map snd (sorted_pairs ops perm g) = map (\<lambda>i. map snd (nonzero ops g) ! i) perm"
  unfolding sorted_pairs_def using sorts_lt[OF assms] by (auto simp: o_def)

lemma sorted_pairs_sorted:
  assumes "sorts (map snd (nonzero ops g)) perm"
  shows "sorted (map snd (sorted_pairs ops perm g))"
  unfolding sorted_pairs_snd[OF assms] using assms by (simp add: sorts_def)

lemma batch_index_pairs:
  assumes "sorts (map snd (nonzero ops g)) perm"
  shows "batch_index (SparseDispatcher ops perm E g) = map fst (sorted_pairs ops perm g)"
proof -
  let ?nz = "nonzero ops g"
  have "batch_index (SparseDispatcher ops perm E g) = map (\<lambda>i. map fst ?nz ! i) perm"
    by (simp add: SparseDispatcher_def Let_def sorted_sort_id[OF nonzero_fst_sorted])
  also have "\<dots> = map (\<lambda>i. fst (?nz ! i)) perm"
    using sorts_lt[OF assms] by (intro map_cong) auto
  finally show ?thesis by (simp add: sorted_pairs_def o_def)
qed

lemma expert_index_pairs:
  assumes "sorts (map snd (nonzero ops g)) perm"
  shows "expert_index (SparseDispatcher ops perm E g) = map snd (sorted_pairs ops perm g)"
proof -
  have "sort (map snd (nonzero ops g)) = map snd (sorted_pairs ops perm g)"
  proof (rule properties_for_sort)
    show "mset (map snd (sorted_pairs ops perm g)) = mset (map snd (nonzero ops g))"
      using sorted_pairs_mset[OF assms] by (metis mset_map)
    show "sorted (map snd (sorted_pairs ops perm g))" by (rule sorted_pairs_sorted[OF assms])
  qed
  then show ?thesis by (simp add: SparseDispatcher_def Let_def)
qed

lemma zip_fst_snd: "zip (map fst ps) (map snd ps) = ps"
  by (induction ps) auto

lemma index_pairs:
  assumes "sorts (map snd (nonzero ops g)) perm"
  shows "zip (batch_index (SparseDispatcher ops perm E g))
             (expert_index (SparseDispatcher ops perm E g)) = sorted_pairs ops perm g"
  by (simp only: batch_index_pairs[OF assms] expert_index_pairs[OF assms] zip_fst_snd)

lemma nonzero_gates_pairs:
  assumes "sorts (map snd (nonzero ops g)) perm"
  shows "nonzero_gates (SparseDispatcher ops perm E g)
       = map (\<lambda>p. g ! fst p ! snd p) (sorted_pairs ops perm g)"
proof -
  let ?d = "SparseDispatcher ops perm E g"
  have "nonzero_gates ?d = map2 (\<lambda>row e. row ! e) (map (\<lambda>b. g ! b) (batch_index ?d)) (expert_index ?d)"
    by (simp add: SparseDispatcher_def Let_def)
  also have "\<dots> = map (\<lambda>p. g ! fst p ! snd p) (zip (batch_index ?d) (expert_index ?d))"
    by (simp add: zip_map1 case_prod_beta)
  finally show ?thesis by (simp only: index_pairs[OF assms])
qed

lemma expert_units_pairs:
  assumes "sorts (map snd (nonzero ops g)) perm"
  shows "expert_units (SparseDispatcher ops perm E g) e
       = map fst (filter (\<lambda>p. snd p = e) (sorted_pairs ops perm g))"
  by (simp only: expert_units_def index_pairs[OF assms])

lemma filter_snd_eq_map: "filter (\<lambda>p. snd p = e) ps = map (\<lambda>b. (b, e)) (map fst (filter (\<lambda>p. snd p = e) ps))"
  by (induction ps) auto

lemma sorted_pairs_groups:
  assumes M: "is_matrix B E g" and S: "sorts (map snd (nonzero ops g)) perm"
  shows "sorted_pairs ops perm g
       = concat (map (\<lambda>e. map (\<lambda>b. (b, e)) (expert_units (SparseDispatcher ops perm E g) e)) [0..<E])"
proof -
  let ?sp = "sorted_pairs ops perm g"
  have "set ?sp = set (nonzero ops g)" by (rule mset_eq_setD[OF sorted_pairs_mset[OF S]])
  then have lt: "\<forall>p\<in>set ?sp. snd p < E" using nonzero_snd_lt[OF M] by blast
  have "?sp = sort_key snd ?sp"
    by (rule sort_key_id_if_sorted[symmetric, OF sorted_pairs_sorted[OF S]])
  also have "\<dots> = concat (map (\<lambda>k. filter (\<lambda>p. snd p = k) ?sp) [0..<E])"
    by (rule sort_key_groups[OF lt])
  also have "\<dots> = concat (map (\<lambda>e. map (\<lambda>b. (b, e)) (expert_units (SparseDispatcher ops perm E g) e)) [0..<E])"
    unfolding expert_units_pairs[OF S] using filter_snd_eq_map[of _ ?sp] by simp
  finally show ?thesis .
qed

lemma expert_units_mset:
  assumes M: "is_matrix B E g" and S: "sorts (map snd (nonzero ops g)) perm" and e: "e < E"
  shows "mset (expert_units (SparseDispatcher ops perm E g) e) = mset (routed_units ops g e)"
proof -
  let ?sp = "sorted_pairs ops perm g"
  have "mset (filter (\<lambda>p. snd p = e) ?sp) = mset (filter (\<lambda>p. snd p = e) (nonzero ops g))"
    by (simp only: mset_filter sorted_pairs_mset[OF S])
  also have "\<dots> = mset (map (\<lambda>b. (b, e)) (routed_units ops g e))"
    by (simp only: nonzero_filter_snd[OF M e])
  finally have "mset (map fst (filter (\<lambda>p. snd p = e) ?sp))
      = mset (map fst (map (\<lambda>b. (b, e)) (routed_units ops g e)))"
    by (metis mset_map)
  then show ?thesis by (simp add: expert_units_pairs[OF S] o_def)
qed

lemma expert_units_props:
  assumes M: "is_matrix B E g" and S: "sorts (map snd (nonzero ops g)) perm" and e: "e < E"
  shows "distinct (expert_units (SparseDispatcher ops perm E g) e)"
    and "set (expert_units (SparseDispatcher ops perm E g) e) = {b. b < B \<and> f_nonzero ops (g ! b ! e)}"
    and "length (expert_units (SparseDispatcher ops perm E g) e) = length (routed_units ops g e)"
proof -
  note ms = expert_units_mset[OF M S e]
  have B: "length g = B" using M by (simp add: is_matrix_def)
  have "distinct (routed_units ops g e)" by (simp add: routed_units_def)
  then show "distinct (expert_units (SparseDispatcher ops perm E g) e)"
    using mset_eq_imp_distinct_iff[OF ms] by blast
  have "set (expert_units (SparseDispatcher ops perm E g) e) = set (routed_units ops g e)"
    by (rule mset_eq_setD[OF ms])
  then show "set (expert_units (SparseDispatcher ops perm E g) e) = {b. b < B \<and> f_nonzero ops (g ! b ! e)}"
    by (auto simp: routed_units_def B)
  show "length (expert_units (SparseDispatcher ops perm E g) e) = length (routed_units ops g e)"
    by (rule mset_eq_length[OF ms])
qed

lemma batch_index_groups:
  assumes M: "is_matrix B E g" and S: "sorts (map snd (nonzero ops g)) perm"
  shows "batch_index (SparseDispatcher ops perm E g)
       = concat (map (expert_units (SparseDispatcher ops perm E g)) [0..<E])"
proof -
  have "batch_index (SparseDispatcher ops perm E g) = map fst (sorted_pairs ops perm g)"
    by (rule batch_index_pairs[OF S])
  also have "\<dots> = concat (map (expert_units (SparseDispatcher ops perm E g)) [0..<E])"
    by (subst sorted_pairs_groups[OF M S]) (simp add: map_concat o_def)
  finally show ?thesis .
qed

lemma nonzero_gates_groups:
  assumes M: "is_matrix B E g" and S: "sorts (map snd (nonzero ops g)) perm"
  shows "nonzero_gates (SparseDispatcher ops perm E g)
       = concat (map (\<lambda>e. map (\<lambda>b. g ! b ! e) (expert_units (SparseDispatcher ops perm E g) e)) [0..<E])"
proof -
  have "nonzero_gates (SparseDispatcher ops perm E g)
      = map (\<lambda>p. g ! fst p ! snd p) (sorted_pairs ops perm g)"
    by (rule nonzero_gates_pairs[OF S])
  also have "\<dots> = concat (map (\<lambda>e. map (\<lambda>b. g ! b ! e) (expert_units (SparseDispatcher ops perm E g) e)) [0..<E])"
    by (subst sorted_pairs_groups[OF M S]) (simp add: map_concat o_def)
  finally show ?thesis .
qed

lemma part_sizes_groups:
  assumes M: "is_matrix B E g" and S: "sorts (map snd (nonzero ops g)) perm"
    and Z: "gates_zero_or_pos ops g"
  shows "part_sizes (SparseDispatcher ops perm E g)
       = map (\<lambda>e. length (expert_units (SparseDispatcher ops perm E g) e)) [0..<E]"
proof -
  have B: "length g = B" using M by (simp add: is_matrix_def)
  have agree: "\<And>b e. b < B \<Longrightarrow> e < E \<Longrightarrow>
      f_gt ops (g ! b ! e) (f_zero ops) = f_nonzero ops (g ! b ! e)"
    using M Z by (auto simp: is_matrix_def gates_zero_or_pos_def list_all_length)
  have "part_sizes (SparseDispatcher ops perm E g)
      = map (\<lambda>e. length (filter (\<lambda>b. f_gt ops (g ! b ! e) (f_zero ops)) [0..<B])) [0..<E]"
    by (simp add: SparseDispatcher_def Let_def B)
  also have "\<dots> = map (\<lambda>e. length (routed_units ops g e)) [0..<E]"
    by (rule map_cong[OF refl], rule arg_cong[where f=length])
       (auto simp: routed_units_def B agree intro!: filter_cong)
  also have "\<dots> = map (\<lambda>e. length (expert_units (SparseDispatcher ops perm E g) e)) [0..<E]"
    by (rule map_cong[OF refl]) (simp add: expert_units_props(3)[OF M S])
  finally show ?thesis .
qed

lemma expert_units_stable:
  assumes M: "is_matrix B E g" and e: "e < E"
  shows "expert_units (SparseDispatcher ops (argsort (map snd (nonzero ops g))) E g) e
       = routed_units ops g e"
proof -
  let ?nz = "nonzero ops g"
  have sp: "sorted_pairs ops (argsort (map snd ?nz)) g = sort_key snd ?nz"
    unfolding sorted_pairs_def by (rule argsort_sort_key)
  have "expert_units (SparseDispatcher ops (argsort (map snd ?nz)) E g) e
      = map fst (filter (\<lambda>p. snd p = e) (sort_key snd ?nz))"
    by (simp only: expert_units_pairs[OF sorts_argsort] sp)
  also have "\<dots> = map fst (filter (\<lambda>p. snd p = e) ?nz)"
    by (simp only: sort_key_stable)
  also have "\<dots> = routed_units ops g e"
    by (simp add: nonzero_filter_snd[OF M e] o_def)
  finally show ?thesis .
qed

section \<open>Accumulation by index\<close>

lemma foldl_index_add_length:
  "length (foldl (\<lambda>a (i, v). a[i := f a i v]) acc ps) = length acc"
  by (induction ps arbitrary: acc) (auto simp: case_prod_beta)

lemma foldl_index_add_nth:
  "b < length acc \<Longrightarrow>
    foldl (\<lambda>a (i, v). a[i := f_add ops (a ! i) v]) acc ps ! b
      = foldl (f_add ops) (acc ! b) (map snd (filter (\<lambda>p. fst p = b) ps))"
proof (induction ps arbitrary: acc)
  case Nil
  then show ?case by simp
next
  case (Cons p ps)
  obtain i v where p: "p = (i, v)" by (cases p)
  have "foldl (\<lambda>a (i, v). a[i := f_add ops (a ! i) v]) (acc[i := f_add ops (acc ! i) v]) ps ! b
      = foldl (f_add ops) ((acc[i := f_add ops (acc ! i) v]) ! b)
          (map snd (filter (\<lambda>p. fst p = b) ps))"
    using Cons.prems by (intro Cons.IH) simp
  then show ?case using Cons.prems by (auto simp: p nth_list_update)
qed

lemma index_of_Cons: "index_of (x # xs) b = (if x = b then 0 else Suc (index_of xs b))"
  by (simp add: index_of_def)

lemma index_of_nth:
  "b \<in> set xs \<Longrightarrow> index_of xs b < length xs \<and> xs ! index_of xs b = b"
  by (induction xs) (auto simp: index_of_Cons)

lemma filter_fst_zip_distinct:
  "distinct xs \<Longrightarrow> length ys = length xs \<Longrightarrow>
   filter (\<lambda>p. fst p = b) (zip xs ys)
     = (if b \<in> set xs then [(b, ys ! index_of xs b)] else [])"
proof (induction xs arbitrary: ys)
  case Nil
  then show ?case by simp
next
  case (Cons x xs)
  then obtain y ys' where ys: "ys = y # ys'" by (cases ys) auto
  have IH: "filter (\<lambda>p. fst p = b) (zip xs ys')
      = (if b \<in> set xs then [(b, ys' ! index_of xs b)] else [])"
    using Cons.prems by (intro Cons.IH) (auto simp: ys)
  show ?case
  proof (cases "x = b")
    case True
    then have "b \<notin> set xs" using Cons.prems(1) by simp
    then show ?thesis using IH True by (simp add: ys index_of_Cons)
  next
    case False
    then show ?thesis using IH by (simp add: ys index_of_Cons)
  qed
qed

lemma index_add_groups:
  fixes vs :: "nat \<Rightarrow> 'a list" and units :: "nat \<Rightarrow> nat list"
  assumes D: "\<forall>e<E. distinct (units e)" and R: "\<forall>e<E. \<forall>b\<in>set (units e). b < B"
    and L: "\<forall>e<E. length (vs e) = length (units e)"
  shows "\<exists>ys. index_add ops (replicate B (f_zero ops)) (concat (map units [0..<E]))
              (concat (map vs [0..<E])) = Inr ys \<and> length ys = B \<and>
           (\<forall>b<B. ys ! b = accumulate ops (map (\<lambda>e. vs e ! index_of (units e) b)
                                               (filter (\<lambda>e. b \<in> set (units e)) [0..<E])))"
proof -
  let ?idx = "concat (map units [0..<E])"
  let ?src = "concat (map vs [0..<E])"
  let ?ys = "foldl (\<lambda>a (i, v). a[i := f_add ops (a ! i) v]) (replicate B (f_zero ops)) (zip ?idx ?src)"
  have len: "length ?idx = length ?src"
    using L by (auto simp: length_concat_sum o_def intro!: arg_cong[where f=sum_list])
  have rng: "list_all (\<lambda>i. i < length (replicate B (f_zero ops))) ?idx"
    using R by (auto simp: list_all_iff)
  have run: "index_add ops (replicate B (f_zero ops)) ?idx ?src = Inr ?ys"
    using len rng by (simp add: index_add_def)
  have z: "zip ?idx ?src = concat (map (\<lambda>e. zip (units e) (vs e)) [0..<E])"
    using L by (intro zip_concat_groups) auto
  have val: "?ys ! b = accumulate ops (map (\<lambda>e. vs e ! index_of (units e) b)
                                          (filter (\<lambda>e. b \<in> set (units e)) [0..<E]))"
    if "b < B" for b
  proof -
    have "filter (\<lambda>p. fst p = b) (zip ?idx ?src)
        = concat (map (\<lambda>e. filter (\<lambda>p. fst p = b) (zip (units e) (vs e))) [0..<E])"
      by (simp add: z filter_concat o_def)
    also have "\<dots> = concat (map (\<lambda>e. if b \<in> set (units e)
                                       then [(b, vs e ! index_of (units e) b)] else []) [0..<E])"
    proof (rule arg_cong[where f=concat], rule map_cong[OF refl])
      fix e assume "e \<in> set [0..<E]"
      then have e: "e < E" by simp
      show "filter (\<lambda>p. fst p = b) (zip (units e) (vs e))
          = (if b \<in> set (units e) then [(b, vs e ! index_of (units e) b)] else [])"
        using D L e by (intro filter_fst_zip_distinct) auto
    qed
    also have "\<dots> = map (\<lambda>e. (b, vs e ! index_of (units e) b))
                        (filter (\<lambda>e. b \<in> set (units e)) [0..<E])"
      by (rule concat_map_if_singleton)
    finally have "map snd (filter (\<lambda>p. fst p = b) (zip ?idx ?src))
        = map (\<lambda>e. vs e ! index_of (units e) b) (filter (\<lambda>e. b \<in> set (units e)) [0..<E])"
      by (simp add: o_def)
    then show ?thesis
      using foldl_index_add_nth[of b "replicate B (f_zero ops)" ops "zip ?idx ?src"] that
      by (simp add: accumulate_def)
  qed
  have "length ?ys = B" by (simp add: foldl_index_add_length[where f="\<lambda>a i v. f_add ops (a ! i) v"])
  then show ?thesis using run val by blast
qed

section \<open>Dispatch and combine, sub-batch by sub-batch\<close>

lemma gates_fields [simp]:
  "gates_of (SparseDispatcher ops perm E g) = g"
  by (simp add: SparseDispatcher_def Let_def)

lemma routed_experts_units:
  assumes M: "is_matrix B E g" and S: "sorts (map snd (nonzero ops g)) perm" and b: "b < B"
  shows "filter (\<lambda>e. b \<in> set (expert_units (SparseDispatcher ops perm E g) e)) [0..<E]
       = routed_experts ops g E b"
  unfolding routed_experts_def
  using expert_units_props(2)[OF M S] b by (intro filter_cong) auto

lemma slot_props:
  assumes M: "is_matrix B E g" and S: "sorts (map snd (nonzero ops g)) perm" and b: "b < B"
    and e: "e \<in> set (routed_experts ops g E b)"
  shows "slot (SparseDispatcher ops perm E g) e b
           < length (expert_units (SparseDispatcher ops perm E g) e)"
    and "expert_units (SparseDispatcher ops perm E g) e ! slot (SparseDispatcher ops perm E g) e b = b"
proof -
  from e have eE: "e < E" and nz: "f_nonzero ops (g ! b ! e)" by (auto simp: routed_experts_def)
  have "b \<in> set (expert_units (SparseDispatcher ops perm E g) e)"
    using expert_units_props(2)[OF M S eE] b nz by simp
  from index_of_nth[OF this]
  show "slot (SparseDispatcher ops perm E g) e b
           < length (expert_units (SparseDispatcher ops perm E g) e)"
    and "expert_units (SparseDispatcher ops perm E g) e ! slot (SparseDispatcher ops perm E g) e b = b"
    by (simp_all add: slot_def)
qed

lemma dispatch_groups:
  assumes M: "is_matrix B E g" and S: "sorts (map snd (nonzero ops g)) perm"
    and Z: "gates_zero_or_pos ops g" and I: "length inp = B"
  shows "dispatch (SparseDispatcher ops perm E g) inp
       = Inr (map (\<lambda>e. map (\<lambda>b. inp ! b) (expert_units (SparseDispatcher ops perm E g) e)) [0..<E])"
proof -
  let ?d = "SparseDispatcher ops perm E g"
  let ?parts = "map (\<lambda>e. map (\<lambda>b. inp ! b) (expert_units ?d e)) [0..<E]"
  have bi: "batch_index ?d = concat (map (expert_units ?d) [0..<E])"
    by (rule batch_index_groups[OF M S])
  have "list_all (\<lambda>i. i < length inp) (batch_index ?d)"
    unfolding bi using expert_units_props(2)[OF M S] I by (auto simp: list_all_iff)
  then have sel: "index_select inp (batch_index ?d) = Inr (concat ?parts)"
    by (simp add: index_select_def bi map_concat o_def)
  have ps: "part_sizes ?d = map length ?parts"
    by (simp add: part_sizes_groups[OF M S Z] o_def)
  have "torch_split (concat ?parts) (part_sizes ?d) = Inr ?parts"
    unfolding ps torch_split_def
    using split_sizes_concat[of ?parts] length_concat_sum[of ?parts] by (simp only: refl if_True)
  then show ?thesis using sel by (simp add: dispatch_def)
qed

lemma combine_weighted:
  assumes M: "is_matrix B E g" and S: "sorts (map snd (nonzero ops g)) perm"
    and E: "0 < E" and L: "length outs = E"
    and P: "\<forall>e<E. length (outs ! e) = length (expert_units (SparseDispatcher ops perm E g) e)"
  shows "\<exists>ys. combine ops (SparseDispatcher ops perm E g) outs True = Inr ys \<and> length ys = B \<and>
    (\<forall>b<B. ys ! b = f_log ops (zero_fill ops (accumulate ops
        (map (\<lambda>e. f_mul ops (f_exp ops (outs ! e ! slot (SparseDispatcher ops perm E g) e b))
                             (g ! b ! e))
             (routed_experts ops g E b)))))"
proof -
  let ?d = "SparseDispatcher ops perm E g"
  let ?u = "expert_units ?d"
  let ?vs = "\<lambda>e. map2 (\<lambda>x gv. f_mul ops x gv) (map (f_exp ops) (outs ! e)) (map (\<lambda>b. g ! b ! e) (?u e))"
  have B: "length g = B" using M by (simp add: is_matrix_def)
  have st: "map (f_exp ops) (concat outs) = concat (map (\<lambda>e. map (f_exp ops) (outs ! e)) [0..<E])"
    by (subst concat_nth_upt[OF L]) (simp add: map_concat o_def)
  have ng: "nonzero_gates ?d = concat (map (\<lambda>e. map (\<lambda>b. g ! b ! e) (?u e)) [0..<E])"
    by (rule nonzero_gates_groups[OF M S])
  have leq: "length (map (f_exp ops) (concat outs)) = length (nonzero_gates ?d)"
    unfolding st ng using P
    by (auto simp: length_concat_sum o_def intro!: arg_cong[where f=sum_list])
  have z: "zip (map (f_exp ops) (concat outs)) (nonzero_gates ?d)
      = concat (map (\<lambda>e. zip (map (f_exp ops) (outs ! e)) (map (\<lambda>b. g ! b ! e) (?u e))) [0..<E])"
    unfolding st ng using P by (intro zip_concat_groups) auto
  have "map2 (\<lambda>x gv. f_mul ops x gv) (map (f_exp ops) (concat outs)) (nonzero_gates ?d)
      = concat (map ?vs [0..<E])"
    unfolding z by (simp add: map_concat o_def)
  then have mul: "mul_broadcast ops (map (f_exp ops) (concat outs)) (nonzero_gates ?d)
      = Inr (concat (map ?vs [0..<E]))"
    using leq by (simp only: mul_broadcast_def refl if_True)
  have lvs: "\<forall>e<E. length (?vs e) = length (?u e)" using P by simp
  have D: "\<forall>e<E. distinct (?u e)" using expert_units_props(1)[OF M S] by blast
  have R: "\<forall>e<E. \<forall>b\<in>set (?u e). b < B" using expert_units_props(2)[OF M S] by auto
  from index_add_groups[OF D R lvs] obtain ys0 where
    ia: "index_add ops (replicate B (f_zero ops)) (concat (map ?u [0..<E])) (concat (map ?vs [0..<E])) = Inr ys0"
    and ly: "length ys0 = B"
    and v0: "\<forall>b<B. ys0 ! b = accumulate ops (map (\<lambda>e. ?vs e ! index_of (?u e) b)
                                               (filter (\<lambda>e. b \<in> set (?u e)) [0..<E]))"
    by blast
  have ne: "outs \<noteq> []" using E L by auto
  have run: "combine ops ?d outs True
      = Inr (map (f_log ops) (map (\<lambda>v. if \<not> f_nonzero ops v then f_eps ops else v) ys0))"
    using ne mul ia by (simp add: combine_def Let_def batch_index_groups[OF M S] B)
  have val: "map (f_log ops) (map (\<lambda>v. if \<not> f_nonzero ops v then f_eps ops else v) ys0) ! b
      = f_log ops (zero_fill ops (accumulate ops
          (map (\<lambda>e. f_mul ops (f_exp ops (outs ! e ! slot ?d e b)) (g ! b ! e))
               (routed_experts ops g E b))))" if b: "b < B" for b
  proof -
    have tm: "?vs e ! index_of (?u e) b = f_mul ops (f_exp ops (outs ! e ! slot ?d e b)) (g ! b ! e)"
      if "e \<in> set (routed_experts ops g E b)" for e
    proof -
      from that have e: "e < E" by (auto simp: routed_experts_def)
      have s: "slot ?d e b < length (?u e)" and r: "?u e ! slot ?d e b = b"
        using slot_props[OF M S b that] by auto
      have "slot ?d e b < length (outs ! e)" using s P e by simp
      then show ?thesis using s r by (simp add: slot_def)
    qed
    have "ys0 ! b = accumulate ops (map (\<lambda>e. ?vs e ! index_of (?u e) b) (routed_experts ops g E b))"
      using v0 b by (simp only: routed_experts_units[OF M S b])
    also have "map (\<lambda>e. ?vs e ! index_of (?u e) b) (routed_experts ops g E b)
        = map (\<lambda>e. f_mul ops (f_exp ops (outs ! e ! slot ?d e b)) (g ! b ! e)) (routed_experts ops g E b)"
      by (rule map_cong[OF refl]) (rule tm)
    finally show ?thesis using b ly by (simp add: zero_fill_def)
  qed
  show ?thesis using run val ly by auto
qed

lemma combine_unweighted:
  assumes M: "is_matrix B E g" and S: "sorts (map snd (nonzero ops g)) perm"
    and E: "0 < E" and L: "length outs = E"
    and P: "\<forall>e<E. length (outs ! e) = length (expert_units (SparseDispatcher ops perm E g) e)"
  shows "\<exists>ys. combine ops (SparseDispatcher ops perm E g) outs False = Inr ys \<and> length ys = B \<and>
    (\<forall>b<B. ys ! b = f_log ops (zero_fill ops (accumulate ops
        (map (\<lambda>e. f_exp ops (outs ! e ! slot (SparseDispatcher ops perm E g) e b))
             (routed_experts ops g E b)))))"
proof -
  let ?d = "SparseDispatcher ops perm E g"
  let ?u = "expert_units ?d"
  let ?vs = "\<lambda>e. map (f_exp ops) (outs ! e)"
  have B: "length g = B" using M by (simp add: is_matrix_def)
  have st: "map (f_exp ops) (concat outs) = concat (map ?vs [0..<E])"
    by (subst concat_nth_upt[OF L]) (simp add: map_concat o_def)
  have lvs: "\<forall>e<E. length (?vs e) = length (?u e)" using P by simp
  have D: "\<forall>e<E. distinct (?u e)" using expert_units_props(1)[OF M S] by blast
  have R: "\<forall>e<E. \<forall>b\<in>set (?u e). b < B" using expert_units_props(2)[OF M S] by auto
  from index_add_groups[OF D R lvs] obtain ys0 where
    ia: "index_add ops (replicate B (f_zero ops)) (concat (map ?u [0..<E])) (concat (map ?vs [0..<E])) = Inr ys0"
    and ly: "length ys0 = B"
    and v0: "\<forall>b<B. ys0 ! b = accumulate ops (map (\<lambda>e. ?vs e ! index_of (?u e) b)
                                               (filter (\<lambda>e. b \<in> set (?u e)) [0..<E]))"
    by blast
  have ne: "outs \<noteq> []" using E L by auto
  have run: "combine ops ?d outs False
      = Inr (map (f_log ops) (map (\<lambda>v. if \<not> f_nonzero ops v then f_eps ops else v) ys0))"
    using ne ia by (simp add: combine_def Let_def batch_index_groups[OF M S] B st)
  have val: "map (f_log ops) (map (\<lambda>v. if \<not> f_nonzero ops v then f_eps ops else v) ys0) ! b
      = f_log ops (zero_fill ops (accumulate ops
          (map (\<lambda>e. f_exp ops (outs ! e ! slot ?d e b)) (routed_experts ops g E b))))"
    if b: "b < B" for b
  proof -
    have tm: "?vs e ! index_of (?u e) b = f_exp ops (outs ! e ! slot ?d e b)"
      if "e \<in> set (routed_experts ops g E b)" for e
    proof -
      from that have e: "e < E" by (auto simp: routed_experts_def)
      have s: "slot ?d e b < length (?u e)" using slot_props[OF M S b that] by auto
      have "slot ?d e b < length (outs ! e)" using s P e by simp
      then show ?thesis by (simp add: slot_def)
    qed
    have "ys0 ! b = accumulate ops (map (\<lambda>e. ?vs e ! index_of (?u e) b) (routed_experts ops g E b))"
      using v0 b by (simp only: routed_experts_units[OF M S b])
    also have "map (\<lambda>e. ?vs e ! index_of (?u e) b) (routed_experts ops g E b)
        = map (\<lambda>e. f_exp ops (outs ! e ! slot ?d e b)) (routed_experts ops g E b)"
      by (rule map_cong[OF refl]) (rule tm)
    finally show ?thesis using b ly by (simp add: zero_fill_def)
  qed
  show ?thesis using run val ly by auto
qed

section \<open>Facts about the numeric constants\<close>

lemma upt_1: "[0..<1] = [0]" by simp

lemma upt_2: "[0..<2] = [0, 1]" by (simp add: upt_rec numeral_2_eq_2)



lemma exp_nonneg_ge: "0 \<le> x \<Longrightarrow> \<not> exp (x :: real) < 1 / 2 ^ 150"
proof -
  assume "0 \<le> x"
  then have "1 \<le> exp x" by simp
  moreover have "(1 :: real) / 2 ^ 150 < 1" by simp
  ultimately show ?thesis by linarith
qed

lemma exp_nonneg_no_underflow: "0 \<le> x \<Longrightarrow> \<not> exp (x :: real) < f32_underflow"
  unfolding f32_underflow_def by (rule exp_nonneg_ge)




lemmas model_defs = is_matrix_def sorts_def nonzero_def underflow_ops_def real_ops_def
  gates_zero_or_pos_def SparseDispatcher_def Let_def routed_experts_def combine_def
  mul_broadcast_def index_add_def accumulate_def zero_fill_def dispatch_def index_select_def
  torch_split_def expert_units_def slot_def index_of_def weighted_sum_spec_def
  weighted_payload_spec_def

section \<open>Combine in log space\<close>




lemma one_not_underflow: "\<not> 1 < f32_underflow"
  using exp_nonneg_no_underflow[of 0] by simp

text \<open>
  Claim C1 as stated fails: with one unit, one expert, the gate \<open>1/2\<close> and the expert
  output \<open>0\<close>, the weighted sum of the outputs is \<open>0\<close>, and \<open>combine\<close> returns \<open>ln (1/2)\<close>.
\<close>

theorem combine_weighted_sum_counterexample:
  "is_matrix 1 1 [[1/2 :: real]] \<and> sorts (map snd (nonzero underflow_ops [[1/2]])) [0]
   \<and> gates_zero_or_pos underflow_ops [[1/2]]
   \<and> part_sizes (SparseDispatcher underflow_ops [0] 1 [[1/2]]) = [length [0 :: real]]
   \<and> routed_experts underflow_ops [[1/2]] 1 0 = [0]
   \<and> combine underflow_ops (SparseDispatcher underflow_ops [0] 1 [[1/2]]) [[0]] True
       = Inr [ln (1/2)]
   \<and> weighted_sum_spec underflow_ops (SparseDispatcher underflow_ops [0] 1 [[1/2]]) 1 [[0]] 0 = 0
   \<and> ln (1/2) \<noteq> (0::real)"
  by (simp add: model_defs one_not_underflow)

text \<open>
  Claim C1, amended. For every arithmetic, every gate matrix of shape \<open>[B, E]\<close> whose
  entries are zero or positive, every sorting permutation and expert outputs whose
  lengths are the partition sizes, \<open>combine\<close> with \<open>multiply_by_gates\<close> returns a sequence
  of length \<open>B\<close>. The output of every unit is the logarithm of the weighted sum, over the
  experts that processed it, of the exponential of the expert's output for the unit
  weighted by the unit's gate, with the machine epsilon in the place of a sum that is
  zero; for a unit without a nonzero gate it is the logarithm of the machine epsilon.
\<close>

theorem combine_weighted_exp_sum:
  assumes "is_matrix B E g" and "sorts (map snd (nonzero ops g)) perm"
    and "gates_zero_or_pos ops g" and "0 < E" and "length outs = E"
    and "\<forall>e<E. length (outs ! e) = part_sizes (SparseDispatcher ops perm E g) ! e"
  shows "\<exists>ys. combine ops (SparseDispatcher ops perm E g) outs True = Inr ys \<and> length ys = B \<and>
           (\<forall>b<B. ys ! b = f_log ops (zero_fill ops
                       (weighted_sum_spec ops (SparseDispatcher ops perm E g) E
                          (map (map (f_exp ops)) outs) b))
                 \<and> (routed_experts ops g E b = [] \<and> \<not> f_nonzero ops (f_zero ops)
                      \<longrightarrow> ys ! b = f_log ops (f_eps ops)))"
proof -
  let ?d = "SparseDispatcher ops perm E g"
  have P: "\<forall>e<E. length (outs ! e) = length (expert_units ?d e)"
    using assms(6) by (simp add: part_sizes_groups[OF assms(1,2,3)])
  from combine_weighted[OF assms(1,2,4,5) P] obtain ys where
    run: "combine ops ?d outs True = Inr ys" and ly: "length ys = B"
    and v: "\<forall>b<B. ys ! b = f_log ops (zero_fill ops (accumulate ops
        (map (\<lambda>e. f_mul ops (f_exp ops (outs ! e ! slot ?d e b)) (g ! b ! e))
             (routed_experts ops g E b))))"
    by blast
  have eq: "weighted_sum_spec ops ?d E (map (map (f_exp ops)) outs) b
      = accumulate ops (map (\<lambda>e. f_mul ops (f_exp ops (outs ! e ! slot ?d e b)) (g ! b ! e))
             (routed_experts ops g E b))" if b: "b < B" for b
  proof -
    have "map (\<lambda>e. f_mul ops (map (map (f_exp ops)) outs ! e ! slot ?d e b) (g ! b ! e))
              (routed_experts ops g E b)
        = map (\<lambda>e. f_mul ops (f_exp ops (outs ! e ! slot ?d e b)) (g ! b ! e))
              (routed_experts ops g E b)"
    proof (rule map_cong[OF refl])
      fix e assume r: "e \<in> set (routed_experts ops g E b)"
      then have e: "e < E" by (auto simp: routed_experts_def)
      have "slot ?d e b < length (outs ! e)"
        using slot_props(1)[OF assms(1,2) b r] P e by simp
      then show "f_mul ops (map (map (f_exp ops)) outs ! e ! slot ?d e b) (g ! b ! e)
          = f_mul ops (f_exp ops (outs ! e ! slot ?d e b)) (g ! b ! e)"
        using e assms(5) by simp
    qed
    then show ?thesis unfolding weighted_sum_spec_def gates_fields by (simp only:)
  qed
  have "ys ! b = f_log ops (f_eps ops)"
    if "b < B" "routed_experts ops g E b = []" "\<not> f_nonzero ops (f_zero ops)" for b
    using v that by (simp add: accumulate_def zero_fill_def)
  then show ?thesis using run ly v eq by auto
qed

text \<open>Witness for the amended C1, in the arithmetic of the reals.\<close>

theorem combine_weighted_exp_sum_witness:
  "\<exists>ys. combine real_ops (SparseDispatcher real_ops [0, 1] 2 [[1/2, 1/2], [0, 0]]) [[3], [5]] True
          = Inr ys \<and> length ys = 2 \<and>
      ys ! 0 = ln (exp 3 * (1/2) + exp 5 * (1/2)) \<and> ys ! 1 = ln float_eps"
proof -
  let ?g = "[[1/2, 1/2], [0, 0 :: real]]"
  have m: "is_matrix 2 2 ?g" by (simp add: is_matrix_def)
  have s: "sorts (map snd (nonzero real_ops ?g)) [0, 1]"
    by (simp add: model_defs upt_2)
  have z: "gates_zero_or_pos real_ops ?g" by (simp add: model_defs)
  have e: "(0::nat) < 2" by simp
  have l: "length [[3], [5 :: real]] = 2" by simp
  have p: "\<forall>e<2. length ([[3], [5 :: real]] ! e) = part_sizes (SparseDispatcher real_ops [0, 1] 2 ?g) ! e"
    by (simp add: model_defs upt_2 less_Suc_eq numeral_2_eq_2)
  have "0 < exp 3 * (1/2) + exp 5 * (1/2 :: real)"
    by (intro add_pos_pos mult_pos_pos) simp_all
  then have pos: "exp 3 * (1/2) + exp 5 * (1/2) \<noteq> (0::real)" by simp
  from combine_weighted_exp_sum[OF m s z e l p] pos
  show ?thesis
    by (auto simp: model_defs upt_2 less_Suc_eq numeral_2_eq_2)
qed

section \<open>The round trip\<close>

text \<open>
  Claim C3 as stated fails: with one unit of payload \<open>2\<close>, one expert and the gate \<open>1/2\<close>,
  the sum of weight times payload is \<open>1\<close>, and the round trip with the identity as the
  worker and \<open>multiply_by_gates = False\<close> returns \<open>2\<close>.
\<close>

theorem round_trip_counterexample:
  "is_matrix 1 1 [[1/2 :: real]] \<and> sorts (map snd (nonzero underflow_ops [[1/2]])) [0]
   \<and> gates_zero_or_pos underflow_ops [[1/2]]
   \<and> routed_experts underflow_ops [[1/2]] 1 0 = [0]
   \<and> dispatch (SparseDispatcher underflow_ops [0] 1 [[1/2]]) [2 :: real] = Inr [[2]]
   \<and> combine underflow_ops (SparseDispatcher underflow_ops [0] 1 [[1/2]]) [[2]] False = Inr [2]
   \<and> weighted_payload_spec underflow_ops [[1/2]] 1 [2] 0 = 1"
  by (simp add: model_defs exp_nonneg_no_underflow)

text \<open>
  Claim C3, amended. With the identity as every worker and \<open>multiply_by_gates = False\<close>
  the gates are ignored and the accumulation is in linear space: for every arithmetic,
  the round trip returns for a unit the logarithm of the sum that adds the exponential
  of its payload once for every worker it is routed to (for \<open>n \<ge> 1\<close> workers and in exact
  arithmetic this is the payload plus \<open>log n\<close>), with the machine epsilon in the place of
  a sum that is zero; for a unit routed to no worker it is the logarithm of the machine
  epsilon.
\<close>

theorem round_trip_log_space:
  assumes "is_matrix B E g" and "sorts (map snd (nonzero ops g)) perm"
    and "gates_zero_or_pos ops g" and "0 < E" and "length inp = B"
  shows "\<exists>parts ys. dispatch (SparseDispatcher ops perm E g) inp = Inr parts \<and>
           combine ops (SparseDispatcher ops perm E g) parts False = Inr ys \<and> length ys = B \<and>
           (\<forall>b<B. ys ! b = f_log ops (zero_fill ops (accumulate ops
                       (map (\<lambda>e. f_exp ops (inp ! b)) (routed_experts ops g E b))))
                 \<and> (routed_experts ops g E b = [] \<and> \<not> f_nonzero ops (f_zero ops)
                      \<longrightarrow> ys ! b = f_log ops (f_eps ops)))"
proof -
  let ?d = "SparseDispatcher ops perm E g"
  let ?parts = "map (\<lambda>e. map (\<lambda>b. inp ! b) (expert_units ?d e)) [0..<E]"
  have d: "dispatch ?d inp = Inr ?parts"
    by (rule dispatch_groups[OF assms(1,2,3,5)])
  have l: "length ?parts = E" by simp
  have p: "\<forall>e<E. length (?parts ! e) = length (expert_units ?d e)" by simp
  from combine_unweighted[OF assms(1,2,4) l p] obtain ys where
    run: "combine ops ?d ?parts False = Inr ys" and ly: "length ys = B"
    and v: "\<forall>b<B. ys ! b = f_log ops (zero_fill ops (accumulate ops
        (map (\<lambda>e. f_exp ops (?parts ! e ! slot ?d e b)) (routed_experts ops g E b))))"
    by blast
  have eq: "map (\<lambda>e. f_exp ops (?parts ! e ! slot ?d e b)) (routed_experts ops g E b)
      = map (\<lambda>e. f_exp ops (inp ! b)) (routed_experts ops g E b)" if b: "b < B" for b
  proof (rule map_cong[OF refl])
    fix e assume r: "e \<in> set (routed_experts ops g E b)"
    then have e: "e < E" by (auto simp: routed_experts_def)
    show "f_exp ops (?parts ! e ! slot ?d e b) = f_exp ops (inp ! b)"
      using slot_props[OF assms(1,2) b r] e by simp
  qed
  have v': "\<forall>b<B. ys ! b = f_log ops (zero_fill ops (accumulate ops
        (map (\<lambda>e. f_exp ops (inp ! b)) (routed_experts ops g E b))))"
  proof (intro allI impI)
    fix b assume b: "b < B"
    from v b have "ys ! b = f_log ops (zero_fill ops (accumulate ops
        (map (\<lambda>e. f_exp ops (?parts ! e ! slot ?d e b)) (routed_experts ops g E b))))"
      by blast
    then show "ys ! b = f_log ops (zero_fill ops (accumulate ops
        (map (\<lambda>e. f_exp ops (inp ! b)) (routed_experts ops g E b))))"
      by (simp only: eq[OF b])
  qed
  have "ys ! b = f_log ops (f_eps ops)"
    if "b < B" "routed_experts ops g E b = []" "\<not> f_nonzero ops (f_zero ops)" for b
    using v' that by (simp add: accumulate_def zero_fill_def)
  then show ?thesis using d run ly v' by blast
qed

text \<open>Witness for the amended C3, in the arithmetic of the reals.\<close>

theorem round_trip_log_space_witness:
  "\<exists>parts ys. dispatch (SparseDispatcher real_ops [0, 1] 2 [[1/2, 1/2], [0, 0]]) [7, 9] = Inr parts \<and>
      combine real_ops (SparseDispatcher real_ops [0, 1] 2 [[1/2, 1/2], [0, 0]]) parts False = Inr ys \<and>
      length ys = 2 \<and> ys ! 0 = ln (exp 7 + exp 7) \<and> ys ! 1 = ln float_eps"
proof -
  let ?g = "[[1/2, 1/2], [0, 0 :: real]]"
  have m: "is_matrix 2 2 ?g" by (simp add: is_matrix_def)
  have s: "sorts (map snd (nonzero real_ops ?g)) [0, 1]"
    by (simp add: model_defs upt_2)
  have z: "gates_zero_or_pos real_ops ?g" by (simp add: model_defs)
  have e: "(0::nat) < 2" by simp
  have l: "length [7, 9 :: real] = 2" by simp
  have "0 < exp 7 + exp (7 :: real)" by (intro add_pos_pos) simp_all
  then have pos: "exp 7 + exp 7 \<noteq> (0::real)" by simp
  from round_trip_log_space[OF m s z e l] pos
  show ?thesis
    by (auto simp: model_defs upt_2 less_Suc_eq numeral_2_eq_2)
qed

section \<open>The order of the sub-batches\<close>

lemma upt_3: "[0..<3] = [0, 1, 2]" by (simp add: upt_rec numeral_3_eq_3)

text \<open>
  Claim C5 as stated fails in two ways. The permutation \<open>[0, 2, 1]\<close> sorts the column
  \<open>[0, 1, 1]\<close> of expert indices as well as the stable \<open>[0, 1, 2]\<close> does, and with it the
  sub-batch of expert 1 holds unit 1 before unit 0: the order is not ascending. And on
  the gate matrix \<open>[[-1]]\<close> the entry is nonzero and not greater than zero, the partition
  sizes do not add up to the number of nonzero entries and \<open>dispatch\<close> raises.
\<close>

theorem dispatch_order_counterexample:
  "sorts (map snd (nonzero real_ops [[1/2, 1/2], [0, 1]])) [0, 2, 1]
   \<and> dispatch (SparseDispatcher real_ops [0, 2, 1] 2 [[1/2, 1/2], [0, 1]]) [10, 20 :: nat]
       = Inr [[10], [20, 10]]
   \<and> sorts (map snd (nonzero real_ops [[- 1]])) [0]
   \<and> dispatch (SparseDispatcher real_ops [0] 1 [[- 1]]) [10 :: nat] = Inl RuntimeError"
  by (simp add: model_defs upt_2 upt_3)

lemma zero_or_pos_entry:
  assumes "is_matrix B E g" "gates_zero_or_pos ops g" "b < B" "e < E"
  shows "f_nonzero ops (g ! b ! e) = f_gt ops (g ! b ! e) (f_zero ops)"
  using assms by (auto simp: is_matrix_def gates_zero_or_pos_def list_all_length)

text \<open>
  Claim C5, amended. For every arithmetic, every gate matrix of shape \<open>[B, E]\<close> whose
  entries are zero or positive and every permutation that sorts the expert indices:
  \<open>dispatch\<close> returns one sub-batch per expert; the sub-batch of expert \<open>e\<close> holds exactly
  the units \<open>b\<close> with \<open>gates[b, e] > 0\<close>, each once, in the order of the permutation, which
  is the ascending order of \<open>b\<close> when the permutation is the one of a stable sort.
  \<open>combine\<close> assigns the outputs back in exactly this order: what it adds into the slot of
  unit \<open>b\<close> for expert \<open>e\<close> is computed from the output at the position that \<open>b\<close> has in
  the sub-batch of \<open>e\<close>.
\<close>

theorem dispatch_combine_order:
  assumes "is_matrix B E g" and "sorts (map snd (nonzero ops g)) perm"
    and "gates_zero_or_pos ops g" and "length inp = B" and "0 < E" and "length outs = E"
    and "\<forall>e<E. length (outs ! e) = part_sizes (SparseDispatcher ops perm E g) ! e"
  shows "dispatch (SparseDispatcher ops perm E g) inp
           = Inr (map (\<lambda>e. map (\<lambda>b. inp ! b) (expert_units (SparseDispatcher ops perm E g) e))
                      [0..<E])
       \<and> (\<forall>e<E. distinct (expert_units (SparseDispatcher ops perm E g) e)
              \<and> set (expert_units (SparseDispatcher ops perm E g) e)
                  = {b. b < B \<and> f_gt ops (g ! b ! e) (f_zero ops)})
       \<and> (perm = argsort (map snd (nonzero ops g)) \<longrightarrow>
            (\<forall>e<E. expert_units (SparseDispatcher ops perm E g) e
                     = filter (\<lambda>b. f_gt ops (g ! b ! e) (f_zero ops)) [0..<B]))
       \<and> (\<forall>b<B. \<forall>e\<in>set (routed_experts ops g E b).
              index_of (expert_units (SparseDispatcher ops perm E g) e) b
                < length (expert_units (SparseDispatcher ops perm E g) e)
              \<and> expert_units (SparseDispatcher ops perm E g) e
                  ! index_of (expert_units (SparseDispatcher ops perm E g) e) b = b)
       \<and> (\<exists>ys. combine ops (SparseDispatcher ops perm E g) outs mbg = Inr ys \<and> length ys = B \<and>
            (\<forall>b<B. ys ! b = f_log ops (zero_fill ops (accumulate ops
               (map (\<lambda>e. if mbg
                          then f_mul ops (f_exp ops (outs ! e !
                                 index_of (expert_units (SparseDispatcher ops perm E g) e) b))
                                 (g ! b ! e)
                          else f_exp ops (outs ! e !
                                 index_of (expert_units (SparseDispatcher ops perm E g) e) b))
                    (routed_experts ops g E b))))))"
proof -
  let ?d = "SparseDispatcher ops perm E g"
  note M = assms(1) and S = assms(2) and Z = assms(3)
  have Bg: "length g = B" using M by (simp add: is_matrix_def)
  have c1: "dispatch ?d inp = Inr (map (\<lambda>e. map (\<lambda>b. inp ! b) (expert_units ?d e)) [0..<E])"
    by (rule dispatch_groups[OF M S Z assms(4)])
  have c2: "\<forall>e<E. distinct (expert_units ?d e)
      \<and> set (expert_units ?d e) = {b. b < B \<and> f_gt ops (g ! b ! e) (f_zero ops)}"
  proof (intro allI impI conjI)
    fix e assume e: "e < E"
    show "distinct (expert_units ?d e)" by (rule expert_units_props(1)[OF M S e])
    show "set (expert_units ?d e) = {b. b < B \<and> f_gt ops (g ! b ! e) (f_zero ops)}"
      unfolding expert_units_props(2)[OF M S e]
      using zero_or_pos_entry[OF M Z _ e] by auto
  qed
  have c3: "perm = argsort (map snd (nonzero ops g)) \<longrightarrow>
      (\<forall>e<E. expert_units ?d e = filter (\<lambda>b. f_gt ops (g ! b ! e) (f_zero ops)) [0..<B])"
  proof (intro impI allI)
    fix e assume p: "perm = argsort (map snd (nonzero ops g))" and e: "e < E"
    have "expert_units ?d e = routed_units ops g e"
      unfolding p by (rule expert_units_stable[OF M e])
    also have "\<dots> = filter (\<lambda>b. f_gt ops (g ! b ! e) (f_zero ops)) [0..<B]"
      unfolding routed_units_def Bg
      using zero_or_pos_entry[OF M Z _ e] by (intro filter_cong) auto
    finally show "expert_units ?d e = filter (\<lambda>b. f_gt ops (g ! b ! e) (f_zero ops)) [0..<B]" .
  qed
  have c4: "\<forall>b<B. \<forall>e\<in>set (routed_experts ops g E b).
      index_of (expert_units ?d e) b < length (expert_units ?d e)
      \<and> expert_units ?d e ! index_of (expert_units ?d e) b = b"
    using slot_props[OF M S] by (simp add: slot_def)
  have P: "\<forall>e<E. length (outs ! e) = length (expert_units ?d e)"
    using assms(7) by (simp add: part_sizes_groups[OF M S Z])
  have c5: "\<exists>ys. combine ops ?d outs mbg = Inr ys \<and> length ys = B \<and>
      (\<forall>b<B. ys ! b = f_log ops (zero_fill ops (accumulate ops
         (map (\<lambda>e. if mbg
                    then f_mul ops (f_exp ops (outs ! e ! index_of (expert_units ?d e) b)) (g ! b ! e)
                    else f_exp ops (outs ! e ! index_of (expert_units ?d e) b))
              (routed_experts ops g E b)))))"
  proof (cases mbg)
    case True
    then show ?thesis
      using combine_weighted[OF M S assms(5,6) P] by (simp add: slot_def)
  next
    case False
    then show ?thesis
      using combine_unweighted[OF M S assms(5,6) P] by (simp add: slot_def)
  qed
  show ?thesis
    by (intro conjI) (rule c1, rule c2, rule c3, rule c4, rule c5)
qed

text \<open>Witness for the amended C5, with the permutation that is not stable: expert 1
  receives unit 1 before unit 0, and \<open>combine\<close> adds its first output (\<open>5\<close>) to unit 1 and
  its second output (\<open>7\<close>) to unit 0.\<close>

theorem dispatch_combine_order_witness:
  "dispatch (SparseDispatcher real_ops [0, 2, 1] 2 [[1/2, 1/2], [0, 1]]) [10, 20 :: nat]
     = Inr [[10], [20, 10]]
   \<and> (\<exists>ys. combine real_ops (SparseDispatcher real_ops [0, 2, 1] 2 [[1/2, 1/2], [0, 1]])
               [[3], [5, 7]] True = Inr ys
          \<and> ys ! 0 = ln (exp 3 * (1/2) + exp 7 * (1/2)) \<and> ys ! 1 = ln (exp 5))"
proof -
  let ?g = "[[1/2, 1/2], [0, 1 :: real]]"
  have m: "is_matrix 2 2 ?g" by (simp add: is_matrix_def)
  have s: "sorts (map snd (nonzero real_ops ?g)) [0, 2, 1]"
    by (simp add: model_defs upt_2 upt_3)
  have z: "gates_zero_or_pos real_ops ?g" by (simp add: model_defs)
  have i: "length [10, 20 :: nat] = 2" by simp
  have e: "(0::nat) < 2" by simp
  have l: "length [[3], [5, 7 :: real]] = 2" by simp
  have p: "\<forall>e<2. length ([[3], [5, 7 :: real]] ! e)
             = part_sizes (SparseDispatcher real_ops [0, 2, 1] 2 ?g) ! e"
    by (simp add: model_defs upt_2 less_Suc_eq numeral_2_eq_2)
  have "0 < exp 3 * (1/2) + exp 7 * (1/2 :: real)"
    by (intro add_pos_pos mult_pos_pos) simp_all
  then have pos: "exp 3 * (1/2) + exp 7 * (1/2) \<noteq> (0::real)" by simp
  from dispatch_combine_order[OF m s z i e l p, of True] pos
  show ?thesis
    by (auto simp: model_defs upt_2 upt_3 less_Suc_eq numeral_2_eq_2)
qed

section \<open>Construction of the layer\<close>

text \<open>
  Claim C7 as stated fails: the only check of the constructor is the assertion
  \<open>k \<le> num_experts\<close>. With \<open>k = 0\<close> and one expert, and with \<open>k = 0\<close> and no expert,
  the construction succeeds.
\<close>

theorem init_counterexample:
  "MoEKANConvBase_init real_ops 1 1 True 0
     = Inr \<lparr> layer_noisy_gating = True, layer_num_experts = 1, layer_k = 0,
             w_gate = [[0]], w_noise = [[0]] \<rparr>
   \<and> MoEKANConvBase_init real_ops 1 0 True 0
     = Inr \<lparr> layer_noisy_gating = True, layer_num_experts = 0, layer_k = 0,
             w_gate = [[]], w_noise = [[]] \<rparr>"
  by (simp add: MoEKANConvBase_init_def real_ops_def)

text \<open>
  Claim C7, amended. For sizes that are not negative, the construction fails with an
  assertion error when \<open>k > E\<close>, and it succeeds exactly when \<open>k \<le> E\<close>, in particular
  whenever \<open>1 \<le> k \<le> E\<close>; the layer then holds \<open>k\<close>, \<open>E\<close> and gate weights of shape
  \<open>[input_size, E]\<close>. Neither \<open>k < 1\<close> nor \<open>E = 0\<close> is rejected; a negative size makes
  \<open>torch.zeros\<close> raise.
\<close>

theorem init_succeeds_iff:
  "(0 \<le> input_size \<and> 0 \<le> E \<and> E < k
      \<longrightarrow> MoEKANConvBase_init ops input_size E noisy k = Inl AssertionError)
   \<and> ((\<exists>l. MoEKANConvBase_init ops input_size E noisy k = Inr l)
        \<longleftrightarrow> 0 \<le> input_size \<and> 0 \<le> E \<and> k \<le> E)
   \<and> (0 \<le> input_size \<and> 1 \<le> k \<and> k \<le> E
      \<longrightarrow> (\<exists>l. MoEKANConvBase_init ops input_size E noisy k = Inr l \<and> layer_k l = k
             \<and> layer_noisy_gating l = noisy \<and> int (layer_num_experts l) = E
             \<and> is_matrix (nat input_size) (nat E) (w_gate l)
             \<and> is_matrix (nat input_size) (nat E) (w_noise l)))"
  by (auto simp: MoEKANConvBase_init_def is_matrix_def list_all_iff)

text \<open>Witness for the amended C7: four experts with \<open>k = 5\<close>, and with \<open>k = 2\<close>.\<close>

theorem init_succeeds_iff_witness:
  "MoEKANConvBase_init real_ops 3 4 True 5 = Inl AssertionError
   \<and> (\<exists>l. MoEKANConvBase_init real_ops 3 4 True 2 = Inr l \<and> layer_k l = 2
          \<and> int (layer_num_experts l) = 4 \<and> is_matrix 3 4 (w_gate l))"
  using init_succeeds_iff[of 3 4 5 real_ops True] init_succeeds_iff[of 3 4 2 real_ops True]
  by auto

section \<open>Scattering the gates of a row\<close>

lemma scatter_row_length: "length (scatter_row zs idx vals) = length zs"
proof -
  have "length (foldl (\<lambda>r (i, v). r[i := v]) zs ps) = length zs" for ps :: "(nat \<times> 'a) list"
    by (induction ps arbitrary: zs) (auto simp: case_prod_beta)
  then show ?thesis by (simp add: scatter_row_def)
qed

lemma scatter_row_nth:
  "distinct idx \<Longrightarrow> length idx = length vals \<Longrightarrow> i < length zs \<Longrightarrow>
   scatter_row zs idx vals ! i = (case map_of (zip idx vals) i of None \<Rightarrow> zs ! i | Some v \<Rightarrow> v)"
proof (induction idx arbitrary: vals zs)
  case Nil
  then show ?case by (simp add: scatter_row_def)
next
  case (Cons i0 idx)
  then obtain v0 vals' where vals: "vals = v0 # vals'" by (cases vals) auto
  have step: "scatter_row zs (i0 # idx) (v0 # vals') = scatter_row (zs[i0 := v0]) idx vals'"
    by (simp add: scatter_row_def)
  have d: "distinct idx" and l: "length idx = length vals'" and ni: "i0 \<notin> set idx"
    using Cons.prems by (simp_all add: vals)
  have lz: "i < length (zs[i0 := v0])" using Cons.prems(3) by simp
  have IH: "scatter_row (zs[i0 := v0]) idx vals' ! i
      = (case map_of (zip idx vals') i of None \<Rightarrow> (zs[i0 := v0]) ! i | Some v \<Rightarrow> v)"
    by (rule Cons.IH[OF d l lz])
  have none: "map_of (zip idx vals') i0 = None"
  proof (rule ccontr)
    assume "map_of (zip idx vals') i0 \<noteq> None"
    then obtain v where "map_of (zip idx vals') i0 = Some v" by blast
    then have "(i0, v) \<in> set (zip idx vals')" by (rule map_of_SomeD)
    then have "i0 \<in> set idx" by (rule set_zip_leftD)
    then show False using ni by simp
  qed
  show ?case
  proof (cases "i = i0")
    case True
    have "scatter_row (zs[i0 := v0]) idx vals' ! i0 = v0"
      using IH none Cons.prems(3) unfolding True by simp
    then show ?thesis unfolding vals step True by simp
  next
    case False
    have "(zs[i0 := v0]) ! i = zs ! i" using False by simp
    then have "scatter_row (zs[i0 := v0]) idx vals' ! i
       = (case map_of (zip idx vals') i of None \<Rightarrow> zs ! i | Some v \<Rightarrow> v)"
      using IH by (simp split: option.splits)
    then show ?thesis unfolding vals step using False by (simp split: option.splits)
  qed
qed

lemma scatter_row_selected:
  assumes "distinct idx" "length idx = length vals" "\<forall>i\<in>set idx. i < length zs" "j < length idx"
  shows "scatter_row zs idx vals ! (idx ! j) = vals ! j"
proof -
  have "j < length vals" using assms(2,4) by simp
  then have "map_of (zip idx vals) (idx ! j) = Some (vals ! j)"
    using assms(1,2) by (intro map_of_zip_nth)
  moreover have "idx ! j < length zs" using assms(3,4) by simp
  ultimately show ?thesis using scatter_row_nth[OF assms(1,2)] by simp
qed

lemma scatter_row_other:
  assumes "distinct idx" "length idx = length vals" "i < length zs" "i \<notin> set idx"
  shows "scatter_row zs idx vals ! i = zs ! i"
proof -
  have "map_of (zip idx vals) i = None"
  proof (rule ccontr)
    assume "map_of (zip idx vals) i \<noteq> None"
    then obtain v where "map_of (zip idx vals) i = Some v" by blast
    then have "(i, v) \<in> set (zip idx vals)" by (rule map_of_SomeD)
    then have "i \<in> set idx" by (rule set_zip_leftD)
    then show False using assms(4) by simp
  qed
  then show ?thesis using scatter_row_nth[OF assms(1,2,3)] by simp
qed

lemma scatter_fill_count_le:
  assumes d: "distinct idx" and l: "length idx = length vals" and z: "\<not> P z"
  shows "length (filter P (scatter_row (replicate n z) idx vals)) \<le> length idx"
proof -
  let ?r = "scatter_row (replicate n z) idx vals"
  have len: "length ?r = n" by (simp add: scatter_row_length)
  have sub: "{i. i < length ?r \<and> P (?r ! i)} \<subseteq> set idx"
  proof
    fix i assume "i \<in> {i. i < length ?r \<and> P (?r ! i)}"
    then have i: "i < n" and p: "P (?r ! i)" using len by auto
    show "i \<in> set idx"
    proof (rule ccontr)
      assume "i \<notin> set idx"
      then have "?r ! i = z" using scatter_row_other[OF d l, of i "replicate n z"] i by simp
      then show False using p z by simp
    qed
  qed
  have "card {i. i < length ?r \<and> P (?r ! i)} \<le> card (set idx)"
    by (rule card_mono[OF _ sub]) simp
  also have "\<dots> = length idx" using d by (rule distinct_card)
  finally show ?thesis by (simp add: length_filter_conv_card)
qed

lemma scatter_fill_count_eq:
  assumes d: "distinct idx" and l: "length idx = length vals" and r: "\<forall>i\<in>set idx. i < n"
    and z: "\<not> P z" and p: "\<forall>v\<in>set vals. P v"
  shows "length (filter P (scatter_row (replicate n z) idx vals)) = length idx"
proof -
  let ?r = "scatter_row (replicate n z) idx vals"
  have len: "length ?r = n" by (simp add: scatter_row_length)
  have "{i. i < length ?r \<and> P (?r ! i)} = set idx"
  proof (intro set_eqI iffI)
    fix i assume "i \<in> {i. i < length ?r \<and> P (?r ! i)}"
    then have i: "i < n" and pi: "P (?r ! i)" using len by auto
    show "i \<in> set idx"
    proof (rule ccontr)
      assume "i \<notin> set idx"
      then have "?r ! i = z" using scatter_row_other[OF d l, of i "replicate n z"] i by simp
      then show False using pi z by simp
    qed
  next
    fix i assume i: "i \<in> set idx"
    then obtain j where j: "j < length idx" "idx ! j = i" by (auto simp: in_set_conv_nth)
    have "?r ! (idx ! j) = vals ! j"
      using r by (intro scatter_row_selected[OF d l _ j(1)]) simp
    moreover have "P (vals ! j)" using p j l by simp
    ultimately show "i \<in> {i. i < length ?r \<and> P (?r ! i)}" using r i j len by auto
  qed
  then have "card {i. i < length ?r \<and> P (?r ! i)} = length idx"
    using d by (simp add: distinct_card)
  then show ?thesis by (simp add: length_filter_conv_card)
qed

lemma softmax_length: "length (softmax ops row) = length row"
  by (cases row) (simp_all add: softmax_def Let_def)

section \<open>The gates of the router\<close>

lemma matmul_ok:
  assumes "list_all (\<lambda>row. length row = length w) x"
  shows "\<exists>y. matmul ops x w n = Inr y \<and> is_matrix (length x) n y"
  using assms by (simp add: matmul_def is_matrix_def list_all_iff)

lemma is_matrix_nth: "is_matrix B E g \<Longrightarrow> b < B \<Longrightarrow> length (g ! b) = E"
  by (auto simp: is_matrix_def list_all_length)

lemma is_matrix_length: "is_matrix B E g \<Longrightarrow> length g = B"
  by (simp add: is_matrix_def)

lemma is_matrixI: "length g = B \<Longrightarrow> (\<And>b. b < B \<Longrightarrow> length (g ! b) = E) \<Longrightarrow> is_matrix B E g"
  by (auto simp: is_matrix_def list_all_length)

lemma noise_stddev_matrix:
  "is_matrix B E raw \<Longrightarrow> is_matrix B E (noise_stddev_of ops raw eps train)"
  by (auto simp: is_matrix_def noise_stddev_of_def list_all_iff)

lemma noisy_logits_matrix:
  assumes "is_matrix B E clean" "is_matrix B E randn" "is_matrix B E std"
  shows "is_matrix B E (noisy_logits_of ops clean randn std)"
proof (rule is_matrixI)
  show "length (noisy_logits_of ops clean randn std) = B"
    using assms by (simp add: noisy_logits_of_def is_matrix_def)
  fix b assume "b < B"
  then show "length (noisy_logits_of ops clean randn std ! b) = E"
    using assms by (simp add: noisy_logits_of_def is_matrix_length is_matrix_nth)
qed

lemma gating_logits_ok:
  assumes "gating_shapes l x randn"
  shows "\<exists>clean logits std. gating_logits ops l x train eps randn = Inr (clean, logits, std)
          \<and> is_matrix (length x) (layer_num_experts l) clean
          \<and> is_matrix (length x) (layer_num_experts l) logits
          \<and> (layer_noisy_gating l \<longrightarrow> is_matrix (length x) (layer_num_experts l) std)
          \<and> (\<not> layer_noisy_gating l \<longrightarrow> logits = clean)"
proof -
  let ?n = "layer_num_experts l"
  have xs: "list_all (\<lambda>row. length row = length (w_gate l)) x"
    using assms by (simp add: gating_shapes_def)
  from matmul_ok[OF xs, of ops ?n] obtain clean where
    c: "matmul ops x (w_gate l) ?n = Inr clean" and cm: "is_matrix (length x) ?n clean" by blast
  show ?thesis
  proof (cases "layer_noisy_gating l")
    case False
    then show ?thesis using c cm by (simp add: gating_logits_def Let_def)
  next
    case True
    then have wn: "length (w_noise l) = length (w_gate l)"
      and rm: "is_matrix (length x) ?n randn"
      using assms by (simp_all add: gating_shapes_def)
    have "list_all (\<lambda>row. length row = length (w_noise l)) x" using xs wn by simp
    from matmul_ok[OF this, of ops ?n] obtain raw where
      r: "matmul ops x (w_noise l) ?n = Inr raw" and rwm: "is_matrix (length x) ?n raw" by blast
    have sm: "is_matrix (length x) ?n (noise_stddev_of ops raw eps train)"
      by (rule noise_stddev_matrix[OF rwm])
    have lm: "is_matrix (length x) ?n
        (noisy_logits_of ops clean randn (noise_stddev_of ops raw eps train))"
      by (rule noisy_logits_matrix[OF cm rm sm])
    show ?thesis using True c r cm sm lm by (simp add: gating_logits_def Let_def)
  qed
qed

lemma is_topk_props:
  assumes "is_topk ops m row idx"
  shows "length idx = m" "distinct idx" "\<forall>i\<in>set idx. i < length row"
  using assms by (auto simp: is_topk_def list_all_iff)

lemma selected_props:
  assumes T: "is_topk ops (nat (min (layer_k l + 1) (int n))) row idx"
    and k: "1 \<le> layer_k l" "layer_k l \<le> int n" and r: "length row = n"
  shows "length (selected l idx) = nat (layer_k l)" "distinct (selected l idx)"
    "\<forall>i\<in>set (selected l idx). i < n"
    "length (selected_gates ops l row idx) = nat (layer_k l)"
proof -
  have li: "length idx = nat (min (layer_k l + 1) (int n))" by (rule is_topk_props(1)[OF T])
  have le: "nat (layer_k l) \<le> length idx" using li k by auto
  show "length (selected l idx) = nat (layer_k l)" using le by (simp add: selected_def)
  show "distinct (selected l idx)"
    unfolding selected_def using is_topk_props(2)[OF T] by (rule distinct_take)
  show "\<forall>i\<in>set (selected l idx). i < n"
    using is_topk_props(3)[OF T] r by (auto simp: selected_def dest: in_set_takeD)
  show "length (selected_gates ops l row idx) = nat (layer_k l)"
    using le by (simp add: selected_gates_def softmax_length)
qed

lemma gates_row_selected:
  assumes k: "1 \<le> layer_k l"
  shows "gates_row ops (layer_k l) n (map (\<lambda>i. row ! i) idx, idx)
       = scatter_row (replicate n (f_zero ops)) (selected l idx) (selected_gates ops l row idx)"
  using k by (simp add: gates_row_def Let_def py_slice_to_def selected_def selected_gates_def)

lemma gates_row_structure:
  assumes T: "is_topk ops (nat (min (layer_k l + 1) (int n))) row idx"
    and k: "1 \<le> layer_k l" "layer_k l \<le> int n" and r: "length row = n"
  shows "length (gates_row ops (layer_k l) n (map (\<lambda>i. row ! i) idx, idx)) = n"
    and "\<forall>j<nat (layer_k l). gates_row ops (layer_k l) n (map (\<lambda>i. row ! i) idx, idx)
            ! (selected l idx ! j) = selected_gates ops l row idx ! j"
    and "\<forall>e<n. e \<notin> set (selected l idx)
            \<longrightarrow> gates_row ops (layer_k l) n (map (\<lambda>i. row ! i) idx, idx) ! e = f_zero ops"
    and "\<not> f_nonzero ops (f_zero ops) \<Longrightarrow>
          length (filter (f_nonzero ops) (gates_row ops (layer_k l) n (map (\<lambda>i. row ! i) idx, idx)))
            \<le> nat (layer_k l)"
proof -
  note sp = selected_props[OF T k r]
  let ?r = "gates_row ops (layer_k l) n (map (\<lambda>i. row ! i) idx, idx)"
  have eq: "?r = scatter_row (replicate n (f_zero ops)) (selected l idx) (selected_gates ops l row idx)"
    by (rule gates_row_selected[OF k(1)])
  have ll: "length (selected l idx) = length (selected_gates ops l row idx)"
    using sp(1,4) by simp
  show "length ?r = n" by (simp add: eq scatter_row_length)
  show "\<forall>j<nat (layer_k l). ?r ! (selected l idx ! j) = selected_gates ops l row idx ! j"
  proof (intro allI impI)
    fix j assume "j < nat (layer_k l)"
    then have j: "j < length (selected l idx)" using sp(1) by simp
    show "?r ! (selected l idx ! j) = selected_gates ops l row idx ! j"
      unfolding eq using sp(3) by (intro scatter_row_selected[OF sp(2) ll _ j]) simp
  qed
  show "\<forall>e<n. e \<notin> set (selected l idx) \<longrightarrow> ?r ! e = f_zero ops"
  proof (intro allI impI)
    fix e assume e: "e < n" "e \<notin> set (selected l idx)"
    have "?r ! e = replicate n (f_zero ops) ! e"
      unfolding eq using e by (intro scatter_row_other[OF sp(2) ll]) simp_all
    then show "?r ! e = f_zero ops" using e by simp
  qed
  show "length (filter (f_nonzero ops) ?r) \<le> nat (layer_k l)"
    if "\<not> f_nonzero ops (f_zero ops)"
    unfolding eq using scatter_fill_count_le[OF sp(2) ll, of "f_nonzero ops" "f_zero ops" n] that sp(1)
    by simp
qed

section \<open>The load of the router\<close>

lemma concat_uniform:
  "\<forall>row\<in>set xss. length row = m \<Longrightarrow> length (concat xss) = length xss * m"
  by (induction xss) auto

lemma concat_uniform_nth:
  "\<forall>row\<in>set xss. length row = m \<Longrightarrow> b < length xss \<Longrightarrow> j < m \<Longrightarrow>
   concat xss ! (b * m + j) = xss ! b ! j"
proof (induction xss arbitrary: b)
  case Nil
  then show ?case by simp
next
  case (Cons r rs)
  have lr: "length r = m" using Cons.prems(1) by simp
  show ?case
  proof (cases b)
    case 0
    then show ?thesis using Cons.prems(3) lr by (simp add: nth_append)
  next
    case (Suc b')
    have "concat rs ! (b' * m + j) = rs ! b' ! j"
      using Cons.prems Suc by (intro Cons.IH) auto
    moreover have "(r @ concat rs) ! (m + (b' * m + j)) = concat rs ! (b' * m + j)"
      using lr by (simp add: nth_append)
    ultimately show ?thesis using Suc by (simp add: add.assoc)
  qed
qed

lemma gather_flat_rows:
  assumes U: "\<forall>row\<in>set tv. length row = m" and j: "j < m"
  shows "gather_flat (concat tv) (map (\<lambda>b. int b * int m + int j) [0..<length tv])
       = Inr (map (\<lambda>b. tv ! b ! j) [0..<length tv])"
proof -
  have len: "length (concat tv) = length tv * m" by (rule concat_uniform[OF U])
  have rng: "list_all (\<lambda>p. 0 \<le> p \<and> p < int (length (concat tv)))
               (map (\<lambda>b. int b * int m + int j) [0..<length tv])"
  proof -
    have "int b * int m + int j < int (length tv * m)" if "b < length tv" for b
    proof -
      have "b * m + j < Suc b * m" using j by simp
      also have "\<dots> \<le> length tv * m" using that by (intro mult_le_mono1) simp
      finally have "b * m + j < length tv * m" .
      then have "int (b * m + j) < int (length tv * m)" by (rule iffD2[OF of_nat_less_iff])
      then show ?thesis by simp
    qed
    then show ?thesis by (auto simp: list_all_iff len)
  qed
  have val: "map (\<lambda>p. concat tv ! nat p) (map (\<lambda>b. int b * int m + int j) [0..<length tv])
      = map (\<lambda>b. tv ! b ! j) [0..<length tv]"
  proof (rule nth_equalityI)
    show "length (map (\<lambda>p. concat tv ! nat p) (map (\<lambda>b. int b * int m + int j) [0..<length tv]))
        = length (map (\<lambda>b. tv ! b ! j) [0..<length tv])" by simp
    fix i assume "i < length (map (\<lambda>p. concat tv ! nat p)
                        (map (\<lambda>b. int b * int m + int j) [0..<length tv]))"
    then have i: "i < length tv" by simp
    have "nat (int i * int m + int j) = i * m + j"
      by (metis nat_int of_nat_add of_nat_mult)
    then show "map (\<lambda>p. concat tv ! nat p) (map (\<lambda>b. int b * int m + int j) [0..<length tv]) ! i
        = map (\<lambda>b. tv ! b ! j) [0..<length tv] ! i"
      using i concat_uniform_nth[OF U i j] by simp
  qed
  show ?thesis using rng val by (simp only: gather_flat_def if_True)
qed

lemma prob_in_top_k_run:
  assumes C: "is_matrix B n clean" and TV: "length tv = B"
    and U: "\<forall>row\<in>set tv. length row = Suc kk" and kk: "1 \<le> kk"
  shows "prob_in_top_k ops Phi (int kk) clean noisy std tv
       = Inr (map (\<lambda>b. map (\<lambda>e.
                 if f_gt ops (noisy ! b ! e) (tv ! b ! kk)
                 then Phi (f_div ops (f_sub ops (clean ! b ! e) (tv ! b ! kk)) (std ! b ! e))
                 else Phi (f_div ops (f_sub ops (clean ! b ! e) (tv ! b ! (kk - 1))) (std ! b ! e)))
               [0..<n]) [0..<B])"
proof -
  have lc: "length clean = B" by (rule is_matrix_length[OF C])
  have pin: "map (\<lambda>b. int b * int (size1 tv) + int kk) [0..<B]
           = map (\<lambda>b. int b * int (Suc kk) + int kk) [0..<length tv]"
  proof (cases tv)
    case Nil
    then show ?thesis using TV by simp
  next
    case (Cons r rs)
    then have "size1 tv = Suc kk" using U by (simp add: size1_def)
    then show ?thesis using TV by simp
  qed
  have pout: "map (\<lambda>p. p - 1) (map (\<lambda>b. int b * int (Suc kk) + int kk) [0..<length tv])
           = map (\<lambda>b. int b * int (Suc kk) + int (kk - 1)) [0..<length tv]"
    using kk by (simp add: of_nat_diff)
  have gin: "gather_flat (concat tv) (map (\<lambda>b. int b * int (Suc kk) + int kk) [0..<length tv])
           = Inr (map (\<lambda>b. tv ! b ! kk) [0..<length tv])"
    by (rule gather_flat_rows[OF U]) simp
  have gout: "gather_flat (concat tv) (map (\<lambda>b. int b * int (Suc kk) + int (kk - 1)) [0..<length tv])
           = Inr (map (\<lambda>b. tv ! b ! (kk - 1)) [0..<length tv])"
    by (rule gather_flat_rows[OF U]) (use kk in simp)
  have run: "prob_in_top_k ops Phi (int kk) clean noisy std tv
       = Inr (map (\<lambda>b. map (\<lambda>e.
                 if f_gt ops (noisy ! b ! e) (map (\<lambda>b. tv ! b ! kk) [0..<length tv] ! b)
                 then Phi (f_div ops (f_sub ops (clean ! b ! e)
                             (map (\<lambda>b. tv ! b ! kk) [0..<length tv] ! b)) (std ! b ! e))
                 else Phi (f_div ops (f_sub ops (clean ! b ! e)
                             (map (\<lambda>b. tv ! b ! (kk - 1)) [0..<length tv] ! b)) (std ! b ! e)))
               [0..<length (clean ! b)]) [0..<B])"
    unfolding prob_in_top_k_def Let_def lc pin pout gin gout by simp
  show ?thesis unfolding run
  proof (rule arg_cong[where f=Inr], rule map_cong[OF refl])
    fix b assume "b \<in> set [0..<B]"
    then have b: "b < B" by simp
    have ln: "length (clean ! b) = n" by (rule is_matrix_nth[OF C b])
    show "map (\<lambda>e. if f_gt ops (noisy ! b ! e) (map (\<lambda>b. tv ! b ! kk) [0..<length tv] ! b)
                 then Phi (f_div ops (f_sub ops (clean ! b ! e)
                             (map (\<lambda>b. tv ! b ! kk) [0..<length tv] ! b)) (std ! b ! e))
                 else Phi (f_div ops (f_sub ops (clean ! b ! e)
                             (map (\<lambda>b. tv ! b ! (kk - 1)) [0..<length tv] ! b)) (std ! b ! e)))
             [0..<length (clean ! b)]
        = map (\<lambda>e. if f_gt ops (noisy ! b ! e) (tv ! b ! kk)
                 then Phi (f_div ops (f_sub ops (clean ! b ! e) (tv ! b ! kk)) (std ! b ! e))
                 else Phi (f_div ops (f_sub ops (clean ! b ! e) (tv ! b ! (kk - 1))) (std ! b ! e)))
             [0..<n]"
      using b TV by (simp add: ln)
  qed
qed

lemma length_filter_nth:
  "length (filter P xs) = length (filter (\<lambda>i. P (xs ! i)) [0..<length xs])"
proof -
  have "filter P (map (\<lambda>i. xs ! i) [0..<length xs])
      = map (\<lambda>i. xs ! i) (filter (\<lambda>i. P (xs ! i)) [0..<length xs])"
    by (simp add: filter_map o_def)
  then have "length (filter P (map (\<lambda>i. xs ! i) [0..<length xs]))
      = length (filter (\<lambda>i. P (xs ! i)) [0..<length xs])" by simp
  then show ?thesis by (simp only: map_nth)
qed

lemma gates_to_load_hard: "gates_to_load ops gates n = hard_load ops n gates"
  unfolding gates_to_load_def hard_load_def
  by (rule map_cong[OF refl]) (simp add: length_filter_nth[of _ gates])

lemma sum0_rows:
  "sum0 ops (map (\<lambda>b. map (f b) [0..<n]) bs) n
     = map (\<lambda>e. accumulate ops (map (\<lambda>b. f b e) bs)) [0..<n]"
  unfolding sum0_def by (rule map_cong[OF refl]) (simp add: o_def)

lemma topk_ok_props:
  assumes "topk_ok ops l logits tk"
  shows "length tk = length logits"
    and "\<And>b. b < length logits \<Longrightarrow>
          is_topk ops (nat (min (layer_k l + 1) (int (layer_num_experts l)))) (logits ! b) (tk ! b)"
  using assms by (auto simp: topk_ok_def list_all2_conv_all_nth)

lemma gating_run:
  assumes k1: "1 \<le> layer_k l" and k2: "layer_k l \<le> int (layer_num_experts l)"
    and GL: "gating_logits ops l x train eps randn = Inr (clean, logits, std)"
    and CM: "is_matrix B (layer_num_experts l) clean"
    and LM: "is_matrix B (layer_num_experts l) logits"
    and T: "topk_ok ops l logits tk"
  shows "noisy_top_k_gating ops Phi l x train eps randn tk
       = Inr (router_gates ops l logits tk,
              if layer_noisy_gating l \<and> layer_k l < int (layer_num_experts l) \<and> train
              then soft_load ops Phi (nat (layer_k l)) (layer_num_experts l) clean logits std tk
              else hard_load ops (layer_num_experts l) (router_gates ops l logits tk))"
proof -
  let ?n = "layer_num_experts l"
  let ?k = "layer_k l"
  let ?tops = "map2 (\<lambda>row idx. (map (\<lambda>i. row ! i) idx, idx)) logits tk"
  have lt: "length tk = length logits" by (rule topk_ok_props(1)[OF T])
  have lB: "length logits = B" by (rule is_matrix_length[OF LM])
  have tk: "topk (min (?k + 1) (int ?n)) ?n logits tk = Inr ?tops"
    using k1 k2 by (simp add: topk_def)
  have gates: "map (gates_row ops ?k ?n) ?tops = router_gates ops l logits tk"
    by (simp add: router_gates_def map_zip_map2 case_prod_beta o_def)
  have step: "noisy_top_k_gating ops Phi l x train eps randn tk
      = (if layer_noisy_gating l \<and> ?k < int ?n \<and> train
         then (case prob_in_top_k ops Phi ?k clean logits std (map fst ?tops) of
                 Inl err \<Rightarrow> Inl err
               | Inr prob \<Rightarrow> Inr (router_gates ops l logits tk, sum0 ops prob ?n))
         else Inr (router_gates ops l logits tk,
                   gates_to_load ops (router_gates ops l logits tk) ?n))"
    by (simp only: noisy_top_k_gating_def Let_def GL tk sum.case prod.case gates)
  show ?thesis
  proof (cases "layer_noisy_gating l \<and> ?k < int ?n \<and> train")
    case False
    have "noisy_top_k_gating ops Phi l x train eps randn tk
        = Inr (router_gates ops l logits tk, gates_to_load ops (router_gates ops l logits tk) ?n)"
      using False by (subst step) (rule if_not_P)
    also have "\<dots> = Inr (router_gates ops l logits tk, hard_load ops ?n (router_gates ops l logits tk))"
      by (simp only: gates_to_load_hard)
    finally show ?thesis unfolding if_not_P[OF False] .
  next
    case True
    let ?kk = "nat ?k"
    let ?tv = "map fst ?tops"
    have kk: "1 \<le> ?kk" "int ?kk = ?k" using k1 by simp_all
    have m: "nat (min (?k + 1) (int ?n)) = Suc ?kk" using True k1 by simp
    have ltv: "length ?tv = B" using lt lB by simp
    have rows: "?tv ! b = map (\<lambda>i. logits ! b ! i) (tk ! b)" if "b < B" for b
      using that lt lB by simp
    have U: "\<forall>row\<in>set ?tv. length row = Suc ?kk"
    proof
      fix row assume "row \<in> set ?tv"
      then obtain b where b0: "b < length ?tv" and b1: "?tv ! b = row"
        unfolding in_set_conv_nth by blast
      have b: "b < B" "row = ?tv ! b"
        using b0 b1[symmetric] unfolding ltv by - assumption+
      have "length (tk ! b) = Suc ?kk"
        using is_topk_props(1)[OF topk_ok_props(2)[OF T]] b lB m by simp
      then show "length row = Suc ?kk" using b rows by simp
    qed
    have ent: "?tv ! b ! j = kth_value logits tk b j" if "b < B" "j < Suc ?kk" for b j
    proof -
      have "length (tk ! b) = Suc ?kk"
        using is_topk_props(1)[OF topk_ok_props(2)[OF T]] that lB m by simp
      then show ?thesis using that rows by (simp add: kth_value_def)
    qed
    have run: "prob_in_top_k ops Phi ?k clean logits std ?tv
       = Inr (map (\<lambda>b. map (\<lambda>e.
                 if f_gt ops (logits ! b ! e) (?tv ! b ! ?kk)
                 then Phi (f_div ops (f_sub ops (clean ! b ! e) (?tv ! b ! ?kk)) (std ! b ! e))
                 else Phi (f_div ops (f_sub ops (clean ! b ! e) (?tv ! b ! (?kk - 1))) (std ! b ! e)))
               [0..<?n]) [0..<B])"
      using prob_in_top_k_run[OF CM ltv U kk(1), of ops Phi logits std] by (simp only: kk(2))
    have eqrows: "map (\<lambda>b. map (\<lambda>e.
                 if f_gt ops (logits ! b ! e) (?tv ! b ! ?kk)
                 then Phi (f_div ops (f_sub ops (clean ! b ! e) (?tv ! b ! ?kk)) (std ! b ! e))
                 else Phi (f_div ops (f_sub ops (clean ! b ! e) (?tv ! b ! (?kk - 1))) (std ! b ! e)))
               [0..<?n]) [0..<B]
        = map (\<lambda>b. map (prob_entry ops Phi ?kk clean logits std tk b) [0..<?n]) [0..<B]"
    proof (rule map_cong[OF refl], rule map_cong[OF refl])
      fix b e assume "b \<in> set [0..<B]"
      then have b: "b < B" by simp
      have e1: "?tv ! b ! ?kk = kth_value logits tk b ?kk" by (rule ent[OF b]) simp
      have e2: "?tv ! b ! (?kk - 1) = kth_value logits tk b (?kk - 1)" by (rule ent[OF b]) simp
      show "(if f_gt ops (logits ! b ! e) (?tv ! b ! ?kk)
                 then Phi (f_div ops (f_sub ops (clean ! b ! e) (?tv ! b ! ?kk)) (std ! b ! e))
                 else Phi (f_div ops (f_sub ops (clean ! b ! e) (?tv ! b ! (?kk - 1))) (std ! b ! e)))
          = prob_entry ops Phi ?kk clean logits std tk b e"
        unfolding e1 e2 by (simp add: prob_entry_def)
    qed
    have load: "sum0 ops (map (\<lambda>b. map (prob_entry ops Phi ?kk clean logits std tk b) [0..<?n]) [0..<B]) ?n
        = soft_load ops Phi ?kk ?n clean logits std tk"
      unfolding sum0_rows soft_load_def is_matrix_length[OF CM] by simp
    have "noisy_top_k_gating ops Phi l x train eps randn tk
        = (case prob_in_top_k ops Phi ?k clean logits std ?tv of
                 Inl err \<Rightarrow> Inl err
               | Inr prob \<Rightarrow> Inr (router_gates ops l logits tk, sum0 ops prob ?n))"
      using True by (subst step) (rule if_P)
    also have "\<dots> = Inr (router_gates ops l logits tk,
        sum0 ops (map (\<lambda>b. map (prob_entry ops Phi ?kk clean logits std tk b) [0..<?n]) [0..<B]) ?n)"
      by (simp only: run eqrows sum.case)
    also have "\<dots> = Inr (router_gates ops l logits tk,
        soft_load ops Phi ?kk ?n clean logits std tk)"
      by (simp only: load)
    finally show ?thesis unfolding if_P[OF True] .
  qed
qed

end
